theory Spec2Isabelle
  imports Complex_Main
begin

section \<open>Board model of \<open>tictactoe.py\<close>\<close>

text \<open>
  The program keeps the board as a Python list of one-character strings and mutates it in
  place. The embedding keeps the list, threads it through every function that writes to
  it, and returns it, so that "the board is restored" is a statement about the returned
  list. A read \<open>b[i]\<close> beyond the end of the list raises \<open>IndexError\<close> in Python; every
  such read is a branch of the model.
\<close>

type_synonym board = "string list"
type_synonym memo = "string \<rightharpoonup> int"

datatype error = IndexError

datatype 'a outcome = OutOfFuel | Raised error | Returned 'a

definition HUMAN :: string where
  "HUMAN = ''O''"

definition AI :: string where
  "AI = ''X''"

definition EMPTY :: string where
  "EMPTY = '' ''"

definition WIN_LINES :: "(nat \<times> nat \<times> nat) list" where
  "WIN_LINES =
     [(0, 1, 2), (3, 4, 5), (6, 7, 8),
      (0, 3, 6), (1, 4, 7), (2, 5, 8),
      (0, 4, 8), (2, 4, 6)]"

text \<open>
  \<open>winner\<close>: the \<open>for\<close> loop over the win lines. The test
  \<open>b[a] != EMPTY and b[a] == b[c] == b[d]\<close> reads \<open>b[a]\<close> first, \<open>b[c]\<close> only when
  \<open>b[a]\<close> is not empty, and \<open>b[d]\<close> only when \<open>b[a] == b[c]\<close>.
\<close>

fun winner_scan :: "board \<Rightarrow> (nat \<times> nat \<times> nat) list \<Rightarrow> error + string option" where
  "winner_scan b [] = Inr None"
| "winner_scan b ((a, c, d) # ls) =
     (if length b \<le> a then Inl IndexError
      else if b ! a \<noteq> EMPTY then
        (if length b \<le> c then Inl IndexError
         else if b ! a = b ! c then
           (if length b \<le> d then Inl IndexError
            else if b ! c = b ! d then Inr (Some (b ! a))
            else winner_scan b ls)
         else winner_scan b ls)
      else winner_scan b ls)"

definition winner :: "board \<Rightarrow> error + string option" where
  "winner b = winner_scan b WIN_LINES"

definition is_draw :: "board \<Rightarrow> error + bool" where
  "is_draw b =
     (case winner b of
        Inl e \<Rightarrow> Inl e
      | Inr w \<Rightarrow> Inr (w = None \<and> list_all (\<lambda>x. x \<noteq> EMPTY) b))"

definition available_moves :: "board \<Rightarrow> nat list" where
  "available_moves b = map fst (filter (\<lambda>(i, x). x = EMPTY) (enumerate 0 b))"

text \<open>
  \<open>winning_moves\<close>: place, test, revert, for every free cell. The board after the loop
  is part of the result.
\<close>

fun winning_loop :: "nat list \<Rightarrow> board \<Rightarrow> string \<Rightarrow> nat list \<Rightarrow> error + (nat list \<times> board)" where
  "winning_loop [] b player wins = Inr (wins, b)"
| "winning_loop (m # ms) b player wins =
     (let b1 = b[m := player] in
      case winner b1 of
        Inl e \<Rightarrow> Inl e
      | Inr w \<Rightarrow>
          winning_loop ms (b1[m := EMPTY]) player
            (if w = Some player then wins @ [m] else wins))"

definition winning_moves :: "board \<Rightarrow> string \<Rightarrow> error + (nat list \<times> board)" where
  "winning_moves b player = winning_loop (available_moves b) b player []"

definition board_key :: "board \<Rightarrow> string \<Rightarrow> string" where
  "board_key b turn = concat b @ turn"

section \<open>The search engine\<close>

text \<open>
  \<open>minimax\<close> recurses through the two \<open>for\<close> loops. The recursion depth is bounded by
  the number of free cells, but only because every call restores the board, so the model
  carries a fuel counter: one unit per level of recursion, consumed only when the call
  gets past the terminal tests and the memo lookup. The result carries the score, the
  board as the call leaves it, and the memo table as the call leaves it.
\<close>

function minimax :: "nat \<Rightarrow> board \<Rightarrow> string \<Rightarrow> memo \<Rightarrow> (int \<times> board \<times> memo) outcome"
  and max_loop :: "nat \<Rightarrow> nat list \<Rightarrow> board \<Rightarrow> memo \<Rightarrow> int \<Rightarrow> (int \<times> board \<times> memo) outcome"
  and min_loop :: "nat \<Rightarrow> nat list \<Rightarrow> board \<Rightarrow> memo \<Rightarrow> int \<Rightarrow> (int \<times> board \<times> memo) outcome"
where
  "minimax fuel b turn memo =
     (case winner b of
        Inl e \<Rightarrow> Raised e
      | Inr w \<Rightarrow>
          if w = Some AI then Returned (1, b, memo)
          else if w = Some HUMAN then Returned (- 1, b, memo)
          else
            (case is_draw b of
               Inl e \<Rightarrow> Raised e
             | Inr dr \<Rightarrow>
                 if dr then Returned (0, b, memo)
                 else
                   (let key = board_key b turn in
                    case memo key of
                      Some v \<Rightarrow> Returned (v, b, memo)
                    | None \<Rightarrow>
                        (case fuel of
                           0 \<Rightarrow> OutOfFuel
                         | Suc n \<Rightarrow>
                             (let moves = available_moves b in
                              if turn = AI then
                                (case max_loop n moves b memo (- 10) of
                                   Returned (best, b', memo') \<Rightarrow>
                                     Returned (best, b', memo'(key \<mapsto> best))
                                 | OutOfFuel \<Rightarrow> OutOfFuel
                                 | Raised e \<Rightarrow> Raised e)
                              else
                                (case min_loop n moves b memo 10 of
                                   Returned (best, b', memo') \<Rightarrow>
                                     Returned (best, b', memo'(key \<mapsto> best))
                                 | OutOfFuel \<Rightarrow> OutOfFuel
                                 | Raised e \<Rightarrow> Raised e))))))"
| "max_loop n [] b memo best = Returned (best, b, memo)"
| "max_loop n (m # ms) b memo best =
     (case minimax n (b[m := AI]) HUMAN memo of
        Returned (score, b', memo') \<Rightarrow> max_loop n ms (b'[m := EMPTY]) memo' (max best score)
      | OutOfFuel \<Rightarrow> OutOfFuel
      | Raised e \<Rightarrow> Raised e)"
| "min_loop n [] b memo best = Returned (best, b, memo)"
| "min_loop n (m # ms) b memo best =
     (case minimax n (b[m := HUMAN]) AI memo of
        Returned (score, b', memo') \<Rightarrow> min_loop n ms (b'[m := EMPTY]) memo' (min best score)
      | OutOfFuel \<Rightarrow> OutOfFuel
      | Raised e \<Rightarrow> Raised e)"
  by pat_completeness auto

termination
  by (relation "inv_image (less_than <*lex*> less_than)
        (\<lambda>x. case x of
           Inl (fuel, b, turn, memo) \<Rightarrow> (fuel, 0)
         | Inr (Inl (n, ms, b, memo, best)) \<Rightarrow> (n, Suc (length ms))
         | Inr (Inr (n, ms, b, memo, best)) \<Rightarrow> (n, Suc (length ms)))") auto

section \<open>The move selector\<close>

text \<open>
  \<open>best_ai_move\<close>: the threat scan before the loop, then the loop over the free cells
  with its early return on an immediate win. The narration (\<open>print\<close>) is the only use of
  the two threat lists and is left out; the calls that compute them stay, because they
  write to the board. The loop carries the board, the memo table shared by all moves,
  \<open>best_score\<close> and \<open>best_move\<close>.
\<close>

fun best_loop :: "nat \<Rightarrow> nat list \<Rightarrow> board \<Rightarrow> memo \<Rightarrow> int \<Rightarrow> int \<Rightarrow> (int \<times> board) outcome" where
  "best_loop fuel [] b memo best_score best_move = Returned (best_move, b)"
| "best_loop fuel (m # ms) b memo best_score best_move =
     (let b1 = b[m := AI] in
      case winner b1 of
        Inl e \<Rightarrow> Raised e
      | Inr w \<Rightarrow>
          if w = Some AI then Returned (int m, b1[m := EMPTY])
          else
            (case winning_moves b1 HUMAN of
               Inl e \<Rightarrow> Raised e
             | Inr (human_wins_next, b2) \<Rightarrow>
                 (case minimax fuel b2 HUMAN memo of
                    OutOfFuel \<Rightarrow> OutOfFuel
                  | Raised e \<Rightarrow> Raised e
                  | Returned (score, b3, memo') \<Rightarrow>
                      (let b4 = b3[m := EMPTY] in
                       if score > best_score then best_loop fuel ms b4 memo' score (int m)
                       else best_loop fuel ms b4 memo' best_score best_move))))"

definition best_ai_move :: "nat \<Rightarrow> board \<Rightarrow> (int \<times> board) outcome" where
  "best_ai_move fuel b =
     (case winning_moves b HUMAN of
        Inl e \<Rightarrow> Raised e
      | Inr (human_threats_now, b0) \<Rightarrow>
          best_loop fuel (available_moves b0) b0 Map.empty (- 10) (- 1))"

text \<open>
  The random source. \<open>random.random()\<close> returns a double in \<open>[0, 1)\<close>; the model takes
  the value drawn as the real number \<open>u\<close>. \<open>random.choice(seq)\<close> raises \<open>IndexError\<close> on
  an empty sequence and otherwise returns \<open>seq[j]\<close> for an index \<open>j\<close> drawn below
  \<open>len(seq)\<close>; the model takes the raw draw \<open>k\<close> and reduces it below the length, so
  that every index can be drawn. The literals \<open>0.7\<close> and \<open>0.35\<close> are doubles: the
  comparison \<open>random.random() < p_best\<close> is between the exact values of two doubles,
  and the exact values of the two literals are the ones below.
\<close>

definition random_choice :: "nat \<Rightarrow> 'a list \<Rightarrow> error + 'a" where
  "random_choice k xs = (if xs = [] then Inl IndexError else Inr (xs ! (k mod length xs)))"

definition p_best_medium :: real where
  "p_best_medium = 6305039478318694 / 2 ^ 53"

definition p_best_easy :: real where
  "p_best_easy = 6305039478318694 / 2 ^ 54"

definition choose_ai_move :: "nat \<Rightarrow> board \<Rightarrow> string \<Rightarrow> real \<Rightarrow> nat \<Rightarrow> (int \<times> board) outcome" where
  "choose_ai_move fuel b difficulty u k =
     (case best_ai_move fuel b of
        OutOfFuel \<Rightarrow> OutOfFuel
      | Raised e \<Rightarrow> Raised e
      | Returned (best, b') \<Rightarrow>
          if difficulty = ''hard'' then Returned (best, b')
          else
            (let moves = available_moves b' in
             if length moves = 1 then Returned (best, b')
             else
               (let p_best = (if difficulty = ''medium'' then p_best_medium else p_best_easy) in
                if u < p_best then Returned (best, b')
                else
                  (let other_moves = filter (\<lambda>m. int m \<noteq> best) moves in
                   case random_choice k other_moves of
                     Inl e \<Rightarrow> Raised e
                   | Inr mistake \<Rightarrow> Returned (int mistake, b')))))"

section \<open>The game loop\<close>

text \<open>
  \<open>b[move] = mark\<close> as Python does it for an integer index: a negative index counts
  from the end, and an index outside \<open>[-len(b), len(b))\<close> raises \<open>IndexError\<close>.
\<close>

definition setitem :: "board \<Rightarrow> int \<Rightarrow> string \<Rightarrow> error + board" where
  "setitem b i x =
     (let n = int (length b); j = (if i < 0 then n + i else i)
      in if 0 \<le> j \<and> j < n then Inr (b[nat j := x]) else Inl IndexError)"

text \<open>
  The \<open>while True\<close> loop of \<open>main\<close>, one ply per iteration, with the console replaced by
  its inputs: \<open>human b\<close> is the cell \<open>ask_human_move\<close> returns on board \<open>b\<close>, and
  \<open>us n\<close>, \<open>ks n\<close> are the draws of the random source at the ply with \<open>n\<close> plies of
  budget left. The loop has no bound of its own; the model counts plies and reports
  \<open>OutOfFuel\<close> when the budget is used up. The result is the board at the \<open>break\<close>.
\<close>

fun game_loop ::
  "nat \<Rightarrow> nat \<Rightarrow> string \<Rightarrow> (board \<Rightarrow> nat) \<Rightarrow> (nat \<Rightarrow> real) \<Rightarrow> (nat \<Rightarrow> nat) \<Rightarrow> board \<Rightarrow> string
     \<Rightarrow> board outcome" where
  "game_loop 0 fuel difficulty human us ks b turn = OutOfFuel"
| "game_loop (Suc n) fuel difficulty human us ks b turn =
     (case
        (if turn = HUMAN then
           (case setitem b (int (human b)) HUMAN of
              Inl e \<Rightarrow> Raised e
            | Inr b1 \<Rightarrow> Returned b1)
         else
           (case choose_ai_move fuel b difficulty (us n) (ks n) of
              OutOfFuel \<Rightarrow> OutOfFuel
            | Raised e \<Rightarrow> Raised e
            | Returned (move, b0) \<Rightarrow>
                (case setitem b0 move AI of
                   Inl e \<Rightarrow> Raised e
                 | Inr b1 \<Rightarrow> Returned b1)))
      of
        OutOfFuel \<Rightarrow> OutOfFuel
      | Raised e \<Rightarrow> Raised e
      | Returned b1 \<Rightarrow>
          (case winner b1 of
             Inl e \<Rightarrow> Raised e
           | Inr w \<Rightarrow>
               if w \<noteq> None then Returned b1
               else
                 (case is_draw b1 of
                    Inl e \<Rightarrow> Raised e
                  | Inr dr \<Rightarrow>
                      if dr then Returned b1
                      else game_loop n fuel difficulty human us ks b1
                             (if turn = AI then HUMAN else AI))))"

section \<open>Facts about the board model\<close>

lemma marks_distinct [simp]:
  "AI \<noteq> HUMAN" "HUMAN \<noteq> AI" "AI \<noteq> EMPTY" "EMPTY \<noteq> AI" "HUMAN \<noteq> EMPTY" "EMPTY \<noteq> HUMAN"
  by (simp_all add: AI_def HUMAN_def EMPTY_def)

lemma filter_nth_append:
  "filter (\<lambda>i. (xs @ ys) ! i = e) [0..<length xs] = filter (\<lambda>i. xs ! i = e) [0..<length xs]"
  by (rule filter_cong) (auto simp: nth_append)

lemma available_moves_filter:
  "available_moves b = filter (\<lambda>i. b ! i = EMPTY) [0..<length b]"
proof -
  have "map fst (filter (\<lambda>(i, x). x = EMPTY) (zip [0..<length b] b))
        = filter (\<lambda>i. b ! i = EMPTY) [0..<length b]"
    by (induction b rule: rev_induct) (simp_all add: filter_nth_append)
  then show ?thesis
    by (simp add: available_moves_def enumerate_eq_zip)
qed

lemma set_available_moves:
  "set (available_moves b) = {i. i < length b \<and> b ! i = EMPTY}"
  by (auto simp: available_moves_filter)

lemma distinct_available_moves: "distinct (available_moves b)"
  by (simp add: available_moves_filter)

lemma sorted_available_moves: "sorted (available_moves b)"
  by (simp add: available_moves_filter sorted_wrt_filter)

lemma length_available_moves:
  "length (available_moves b) = length (filter (\<lambda>x. x = EMPTY) b)"
proof -
  have "length (filter (\<lambda>i. b ! i = EMPTY) [0..<length b]) = length (filter (\<lambda>x. x = EMPTY) b)"
    by (induction b rule: rev_induct) (simp_all add: filter_nth_append)
  then show ?thesis by (simp add: available_moves_filter)
qed

lemma filter_update_less:
  "m < length b \<Longrightarrow> P (b ! m) \<Longrightarrow> \<not> P p \<Longrightarrow>
     Suc (length (filter P (b[m := p]))) = length (filter P b)"
proof (induction b arbitrary: m)
  case Nil
  then show ?case by simp
next
  case (Cons x xs)
  then show ?case by (cases m) auto
qed

lemma available_moves_update:
  assumes "m \<in> set (available_moves b)" and "p \<noteq> EMPTY"
  shows "Suc (length (available_moves (b[m := p]))) = length (available_moves b)"
  using assms filter_update_less [of m b "\<lambda>x. x = EMPTY" p]
  by (simp add: length_available_moves set_available_moves)

lemma winner_scan_mark:
  "winner_scan b ls = Inr (Some w) \<Longrightarrow> w \<noteq> EMPTY \<and> w \<in> set b"
  by (induction b ls rule: winner_scan.induct) (auto split: if_splits)

lemma winner_mark: "winner b = Inr (Some w) \<Longrightarrow> w \<noteq> EMPTY \<and> w \<in> set b"
  unfolding winner_def by (rule winner_scan_mark)

lemma winner_scan_total:
  "\<forall>(a, c, d) \<in> set ls. a < length b \<and> c < length b \<and> d < length b \<Longrightarrow>
     \<exists>w. winner_scan b ls = Inr w"
  by (induction b ls rule: winner_scan.induct) auto

lemma winner_total: "length b = 9 \<Longrightarrow> \<exists>w. winner b = Inr w"
  unfolding winner_def by (rule winner_scan_total) (simp add: WIN_LINES_def)

section \<open>Reference minimax and the invariants of the search\<close>

text \<open>
  \<open>minimax_ref\<close> is the search as the specification describes it, without the memo
  table and without mutation: the terminal tests, then the maximum (AI to move) or the
  minimum (otherwise) of the scores of the free cells taken in ascending order, starting
  from the same sentinels. It is what the memoised search is compared with.
\<close>

function minimax_ref :: "board \<Rightarrow> string \<Rightarrow> int" where
  "minimax_ref b turn =
     (if winner b = Inr (Some AI) then 1
      else if winner b = Inr (Some HUMAN) then - 1
      else if is_draw b = Inr True then 0
      else if turn = AI then
        foldl (\<lambda>best m. max best (minimax_ref (b[m := AI]) HUMAN)) (- 10) (available_moves b)
      else
        foldl (\<lambda>best m. min best (minimax_ref (b[m := HUMAN]) AI)) 10 (available_moves b))"
  by pat_completeness auto

termination
proof (relation "measure (\<lambda>(b, turn). length (available_moves b))")
  show "wf (measure (\<lambda>(b, turn). length (available_moves b)))" by simp
next
  fix b :: board and turn :: string and best :: int and m :: nat
  assume "m \<in> set (available_moves b)"
  then have "Suc (length (available_moves (b[m := AI]))) = length (available_moves b)"
    by (rule available_moves_update) simp
  then show "((b[m := AI], HUMAN), b, turn) \<in> measure (\<lambda>(b, turn). length (available_moves b))"
    by simp
next
  fix b :: board and turn :: string and best :: int and m :: nat
  assume "m \<in> set (available_moves b)"
  then have "Suc (length (available_moves (b[m := HUMAN]))) = length (available_moves b)"
    by (rule available_moves_update) simp
  then show "((b[m := HUMAN], AI), b, turn) \<in> measure (\<lambda>(b, turn). length (available_moves b))"
    by simp
qed

declare minimax_ref.simps [simp del]

text \<open>
  A board as \<open>main\<close> creates and fills it: nine cells, each one of the three marks.
\<close>

definition wf_board :: "board \<Rightarrow> bool" where
  "wf_board b \<longleftrightarrow> length b = 9 \<and> set b \<subseteq> {EMPTY, HUMAN, AI}"

text \<open>
  A memo table is sound when every entry filed under the key of a board and a turn is
  the reference score of that board and turn.
\<close>

definition memo_ok :: "memo \<Rightarrow> bool" where
  "memo_ok memo \<longleftrightarrow>
     (\<forall>b turn v. wf_board b \<longrightarrow> memo (board_key b turn) = Some v \<longrightarrow> v = minimax_ref b turn)"

declare minimax.simps [simp del]

lemma wf_board_update:
  "wf_board b \<Longrightarrow> p \<in> {EMPTY, HUMAN, AI} \<Longrightarrow> wf_board (b[m := p])"
  unfolding wf_board_def using set_update_subset_insert [of b m p] by auto

lemma wf_winner_cases:
  assumes "wf_board b"
  shows "winner b = Inr None \<or> winner b = Inr (Some AI) \<or> winner b = Inr (Some HUMAN)"
proof -
  from assms obtain w where w: "winner b = Inr w"
    using winner_total by (auto simp: wf_board_def)
  show ?thesis
  proof (cases w)
    case None
    with w show ?thesis by simp
  next
    case (Some x)
    with w have "x \<noteq> EMPTY \<and> x \<in> set b" by (simp add: winner_mark)
    with assms have "x = AI \<or> x = HUMAN" by (auto simp: wf_board_def)
    with w Some show ?thesis by auto
  qed
qed

lemma no_moves_iff: "available_moves b = [] \<longleftrightarrow> list_all (\<lambda>x. x \<noteq> EMPTY) b"
proof -
  have "available_moves b = [] \<longleftrightarrow> set (available_moves b) = {}" by simp
  also have "\<dots> \<longleftrightarrow> (\<forall>i < length b. b ! i \<noteq> EMPTY)"
    unfolding set_available_moves by auto
  also have "\<dots> \<longleftrightarrow> list_all (\<lambda>x. x \<noteq> EMPTY) b"
    by (simp add: list_all_length)
  finally show ?thesis .
qed

lemma is_draw_no_winner:
  "winner b = Inr None \<Longrightarrow> is_draw b = Inr (available_moves b = [])"
  by (simp add: is_draw_def no_moves_iff)

lemma is_draw_winner:
  "winner b = Inr (Some w) \<Longrightarrow> is_draw b = Inr False"
  by (simp add: is_draw_def)

lemma minimax_won_AI:
  "winner b = Inr (Some AI) \<Longrightarrow> minimax fuel b turn memo = Returned (1, b, memo)"
  by (simp add: minimax.simps)

lemma minimax_won_HUMAN:
  "winner b = Inr (Some HUMAN) \<Longrightarrow> minimax fuel b turn memo = Returned (- 1, b, memo)"
  by (simp add: minimax.simps)

lemma minimax_drawn:
  "winner b = Inr None \<Longrightarrow> available_moves b = [] \<Longrightarrow>
     minimax fuel b turn memo = Returned (0, b, memo)"
  by (simp add: minimax.simps is_draw_no_winner)

lemma minimax_cached:
  "winner b = Inr None \<Longrightarrow> available_moves b \<noteq> [] \<Longrightarrow> memo (board_key b turn) = Some v \<Longrightarrow>
     minimax fuel b turn memo = Returned (v, b, memo)"
  by (simp add: minimax.simps is_draw_no_winner)

lemma minimax_search:
  "winner b = Inr None \<Longrightarrow> available_moves b \<noteq> [] \<Longrightarrow> memo (board_key b turn) = None \<Longrightarrow>
     minimax (Suc n) b turn memo =
       (if turn = AI then
          (case max_loop n (available_moves b) b memo (- 10) of
             Returned (best, b', memo') \<Rightarrow> Returned (best, b', memo'(board_key b turn \<mapsto> best))
           | OutOfFuel \<Rightarrow> OutOfFuel
           | Raised e \<Rightarrow> Raised e)
        else
          (case min_loop n (available_moves b) b memo 10 of
             Returned (best, b', memo') \<Rightarrow> Returned (best, b', memo'(board_key b turn \<mapsto> best))
           | OutOfFuel \<Rightarrow> OutOfFuel
           | Raised e \<Rightarrow> Raised e))"
  by (auto simp: minimax.simps is_draw_no_winner split: outcome.splits)

lemma minimax_ref_won_AI: "winner b = Inr (Some AI) \<Longrightarrow> minimax_ref b turn = 1"
  by (simp add: minimax_ref.simps)

lemma minimax_ref_won_HUMAN: "winner b = Inr (Some HUMAN) \<Longrightarrow> minimax_ref b turn = - 1"
  by (simp add: minimax_ref.simps)

lemma minimax_ref_drawn:
  "winner b = Inr None \<Longrightarrow> available_moves b = [] \<Longrightarrow> minimax_ref b turn = 0"
  by (simp add: minimax_ref.simps [of b] is_draw_no_winner)

lemma minimax_ref_search:
  "winner b = Inr None \<Longrightarrow> available_moves b \<noteq> [] \<Longrightarrow>
     minimax_ref b turn =
       (if turn = AI then
          foldl (\<lambda>best m. max best (minimax_ref (b[m := AI]) HUMAN)) (- 10) (available_moves b)
        else
          foldl (\<lambda>best m. min best (minimax_ref (b[m := HUMAN]) AI)) 10 (available_moves b))"
  by (simp add: minimax_ref.simps [of b] is_draw_no_winner)

lemma concat_singletons_inj:
  assumes "length xs = length ys"
    and "\<forall>x \<in> set xs. length x = 1" and "\<forall>y \<in> set ys. length y = 1"
    and "concat xs @ s = concat ys @ t"
  shows "xs = ys \<and> s = t"
  using assms
proof (induction xs ys rule: list_induct2)
  case Nil
  then show ?case by simp
next
  case (Cons x xs y ys)
  from Cons.prems obtain c d where "x = [c]" "y = [d]"
    by (auto simp: length_Suc_conv)
  with Cons show ?case by auto
qed

lemma wf_board_cells: "wf_board b \<Longrightarrow> \<forall>x \<in> set b. length x = 1"
  by (auto simp: wf_board_def EMPTY_def HUMAN_def AI_def)

lemma board_key_inj:
  assumes "wf_board b" and "wf_board b'" and "board_key b turn = board_key b' turn'"
  shows "b = b' \<and> turn = turn'"
proof -
  have "length b = length b'" using assms by (simp add: wf_board_def)
  then show ?thesis
    using assms wf_board_cells [of b] wf_board_cells [of b'] concat_singletons_inj [of b b' turn turn']
    by (simp add: board_key_def)
qed

lemma memo_ok_empty: "memo_ok Map.empty"
  by (simp add: memo_ok_def)

lemma memo_ok_store:
  assumes "memo_ok memo" and "wf_board b"
  shows "memo_ok (memo(board_key b turn \<mapsto> minimax_ref b turn))"
  unfolding memo_ok_def
proof (intro allI impI)
  fix b' turn' v
  assume wf: "wf_board b'"
    and hit: "(memo(board_key b turn \<mapsto> minimax_ref b turn)) (board_key b' turn') = Some v"
  show "v = minimax_ref b' turn'"
  proof (cases "board_key b' turn' = board_key b turn")
    case True
    with assms wf have "b' = b \<and> turn' = turn" by (rule_tac board_key_inj) auto
    with hit show ?thesis by simp
  next
    case False
    with hit have "memo (board_key b' turn') = Some v" by simp
    with assms(1) wf show ?thesis by (simp add: memo_ok_def)
  qed
qed

text \<open>
  What a call of the search on board \<open>b\<close> with table \<open>memo\<close> achieves: it returns, it
  leaves the board as it found it, and from a sound table it returns the expected score
  and a sound table.
\<close>

definition search_post :: "board \<Rightarrow> memo \<Rightarrow> int \<Rightarrow> (int \<times> board \<times> memo) outcome \<Rightarrow> bool" where
  "search_post b memo expected r \<longleftrightarrow>
     (\<exists>s memo'. r = Returned (s, b, memo') \<and> (memo_ok memo \<longrightarrow> s = expected \<and> memo_ok memo'))"

lemma search_postI:
  "r = Returned (s, b, memo') \<Longrightarrow> (memo_ok memo \<Longrightarrow> s = expected \<and> memo_ok memo') \<Longrightarrow>
     search_post b memo expected r"
  unfolding search_post_def by blast

lemma place_revert:
  "m \<in> set (available_moves b) \<Longrightarrow> (b[m := p])[m := EMPTY] = b"
  by (simp add: set_available_moves list_update_same_conv)

lemma max_loop_post:
  assumes IH: "\<And>b turn memo. wf_board b \<Longrightarrow> length (available_moves b) \<le> n \<Longrightarrow>
                 search_post b memo (minimax_ref b turn) (minimax n b turn memo)"
    and wf: "wf_board b" and len: "length (available_moves b) \<le> Suc n"
  shows "set ms \<subseteq> set (available_moves b) \<Longrightarrow>
     search_post b memo
       (foldl (\<lambda>best m. max best (minimax_ref (b[m := AI]) HUMAN)) best ms)
       (max_loop n ms b memo best)"
proof (induction ms arbitrary: memo best)
  case Nil
  show ?case by (rule search_postI [of _ best _ memo]) simp_all
next
  case (Cons m ms)
  let ?b1 = "b[m := AI]"
  from Cons.prems have m: "m \<in> set (available_moves b)" by simp
  have wf1: "wf_board ?b1" using wf by (rule wf_board_update) simp
  have "Suc (length (available_moves ?b1)) = length (available_moves b)"
    using m by (rule available_moves_update) simp
  with len have len1: "length (available_moves ?b1) \<le> n" by simp
  from IH [OF wf1 len1, where turn = HUMAN and memo = memo]
  obtain s memo1 where call: "minimax n ?b1 HUMAN memo = Returned (s, ?b1, memo1)"
    and ok1: "memo_ok memo \<longrightarrow> s = minimax_ref ?b1 HUMAN \<and> memo_ok memo1"
    unfolding search_post_def by blast
  from Cons.prems have "set ms \<subseteq> set (available_moves b)" by simp
  from Cons.IH [OF this, where memo = memo1 and best = "max best s"]
  obtain s' memo' where rest: "max_loop n ms b memo1 (max best s) = Returned (s', b, memo')"
    and ok2: "memo_ok memo1 \<longrightarrow>
        s' = foldl (\<lambda>best m. max best (minimax_ref (b[m := AI]) HUMAN)) (max best s) ms \<and> memo_ok memo'"
    unfolding search_post_def by blast
  show ?case
  proof (rule search_postI [of _ s' _ memo'])
    show "max_loop n (m # ms) b memo best = Returned (s', b, memo')"
      using call rest place_revert [OF m, of AI] by simp
  next
    assume "memo_ok memo"
    with ok1 ok2
    show "s' = foldl (\<lambda>best m. max best (minimax_ref (b[m := AI]) HUMAN)) best (m # ms) \<and> memo_ok memo'"
      by simp
  qed
qed

lemma min_loop_post:
  assumes IH: "\<And>b turn memo. wf_board b \<Longrightarrow> length (available_moves b) \<le> n \<Longrightarrow>
                 search_post b memo (minimax_ref b turn) (minimax n b turn memo)"
    and wf: "wf_board b" and len: "length (available_moves b) \<le> Suc n"
  shows "set ms \<subseteq> set (available_moves b) \<Longrightarrow>
     search_post b memo
       (foldl (\<lambda>best m. min best (minimax_ref (b[m := HUMAN]) AI)) best ms)
       (min_loop n ms b memo best)"
proof (induction ms arbitrary: memo best)
  case Nil
  show ?case by (rule search_postI [of _ best _ memo]) simp_all
next
  case (Cons m ms)
  let ?b1 = "b[m := HUMAN]"
  from Cons.prems have m: "m \<in> set (available_moves b)" by simp
  have wf1: "wf_board ?b1" using wf by (rule wf_board_update) simp
  have "Suc (length (available_moves ?b1)) = length (available_moves b)"
    using m by (rule available_moves_update) simp
  with len have len1: "length (available_moves ?b1) \<le> n" by simp
  from IH [OF wf1 len1, where turn = AI and memo = memo]
  obtain s memo1 where call: "minimax n ?b1 AI memo = Returned (s, ?b1, memo1)"
    and ok1: "memo_ok memo \<longrightarrow> s = minimax_ref ?b1 AI \<and> memo_ok memo1"
    unfolding search_post_def by blast
  from Cons.prems have "set ms \<subseteq> set (available_moves b)" by simp
  from Cons.IH [OF this, where memo = memo1 and best = "min best s"]
  obtain s' memo' where rest: "min_loop n ms b memo1 (min best s) = Returned (s', b, memo')"
    and ok2: "memo_ok memo1 \<longrightarrow>
        s' = foldl (\<lambda>best m. min best (minimax_ref (b[m := HUMAN]) AI)) (min best s) ms \<and> memo_ok memo'"
    unfolding search_post_def by blast
  show ?case
  proof (rule search_postI [of _ s' _ memo'])
    show "min_loop n (m # ms) b memo best = Returned (s', b, memo')"
      using call rest place_revert [OF m, of HUMAN] by simp
  next
    assume "memo_ok memo"
    with ok1 ok2
    show "s' = foldl (\<lambda>best m. min best (minimax_ref (b[m := HUMAN]) AI)) best (m # ms) \<and> memo_ok memo'"
      by simp
  qed
qed

lemma minimax_settled_post:
  assumes wf: "wf_board b"
    and settled: "winner b \<noteq> Inr None \<or> available_moves b = [] \<or> memo (board_key b turn) \<noteq> None"
  shows "search_post b memo (minimax_ref b turn) (minimax fuel b turn memo)"
proof -
  consider (ai) "winner b = Inr (Some AI)" | (human) "winner b = Inr (Some HUMAN)"
    | (draw) "winner b = Inr None" "available_moves b = []"
    | (hit) v where "winner b = Inr None" "available_moves b \<noteq> []" "memo (board_key b turn) = Some v"
    using wf_winner_cases [OF wf] settled by auto
  then show ?thesis
  proof cases
    case ai
    then show ?thesis
      by (intro search_postI [of _ 1 _ memo]) (simp_all add: minimax_won_AI minimax_ref_won_AI)
  next
    case human
    then show ?thesis
      by (intro search_postI [of _ "- 1" _ memo]) (simp_all add: minimax_won_HUMAN minimax_ref_won_HUMAN)
  next
    case draw
    then show ?thesis
      by (intro search_postI [of _ 0 _ memo]) (simp_all add: minimax_drawn minimax_ref_drawn)
  next
    case hit
    show ?thesis
    proof (rule search_postI [of _ v _ memo])
      show "minimax fuel b turn memo = Returned (v, b, memo)"
        using hit by (simp add: minimax_cached)
    next
      assume "memo_ok memo"
      with wf hit(3) show "v = minimax_ref b turn \<and> memo_ok memo"
        by (simp add: memo_ok_def)
    qed
  qed
qed

lemma minimax_post:
  "wf_board b \<Longrightarrow> length (available_moves b) \<le> n \<Longrightarrow>
     search_post b memo (minimax_ref b turn) (minimax n b turn memo)"
proof (induction n arbitrary: b turn memo)
  case 0
  then show ?case by (intro minimax_settled_post) simp_all
next
  case (Suc n)
  show ?case
  proof (cases "winner b \<noteq> Inr None \<or> available_moves b = [] \<or> memo (board_key b turn) \<noteq> None")
    case True
    with Suc.prems(1) show ?thesis by (rule minimax_settled_post)
  next
    case False
    then have open_pos: "winner b = Inr None" "available_moves b \<noteq> []"
      and miss: "memo (board_key b turn) = None" by simp_all
    show ?thesis
    proof (cases "turn = AI")
      case True
      from max_loop_post [OF Suc.IH Suc.prems, where ms = "available_moves b" and memo = memo and best = "- 10"]
      obtain s memo' where loop: "max_loop n (available_moves b) b memo (- 10) = Returned (s, b, memo')"
        and ok: "memo_ok memo \<longrightarrow>
          s = foldl (\<lambda>best m. max best (minimax_ref (b[m := AI]) HUMAN)) (- 10) (available_moves b)
          \<and> memo_ok memo'"
        unfolding search_post_def by blast
      show ?thesis
      proof (rule search_postI [of _ s _ "memo'(board_key b turn \<mapsto> s)"])
        show "minimax (Suc n) b turn memo = Returned (s, b, memo'(board_key b turn \<mapsto> s))"
          using open_pos miss True loop by (simp add: minimax_search)
      next
        assume "memo_ok memo"
        with ok have s: "s = minimax_ref b turn" and ok': "memo_ok memo'"
          using open_pos True by (simp_all add: minimax_ref_search)
        from memo_ok_store [OF ok' Suc.prems(1), where turn = turn] s
        show "s = minimax_ref b turn \<and> memo_ok (memo'(board_key b turn \<mapsto> s))" by simp
      qed
    next
      case False
      from min_loop_post [OF Suc.IH Suc.prems, where ms = "available_moves b" and memo = memo and best = 10]
      obtain s memo' where loop: "min_loop n (available_moves b) b memo 10 = Returned (s, b, memo')"
        and ok: "memo_ok memo \<longrightarrow>
          s = foldl (\<lambda>best m. min best (minimax_ref (b[m := HUMAN]) AI)) 10 (available_moves b)
          \<and> memo_ok memo'"
        unfolding search_post_def by blast
      show ?thesis
      proof (rule search_postI [of _ s _ "memo'(board_key b turn \<mapsto> s)"])
        show "minimax (Suc n) b turn memo = Returned (s, b, memo'(board_key b turn \<mapsto> s))"
          using open_pos miss False loop by (simp add: minimax_search)
      next
        assume "memo_ok memo"
        with ok have s: "s = minimax_ref b turn" and ok': "memo_ok memo'"
          using open_pos False by (simp_all add: minimax_ref_search)
        from memo_ok_store [OF ok' Suc.prems(1), where turn = turn] s
        show "s = minimax_ref b turn \<and> memo_ok (memo'(board_key b turn \<mapsto> s))" by simp
      qed
    qed
  qed
qed

section \<open>The reference score as a maximum and a minimum\<close>

lemma foldl_max_Max:
  fixes f :: "nat \<Rightarrow> int"
  shows "foldl (\<lambda>best m. max best (f m)) a ms = Max (insert a (f ` set ms))"
proof (induction ms arbitrary: a)
  case Nil
  show ?case by simp
next
  case (Cons m ms)
  have "Max (insert (max a (f m)) (f ` set ms)) = Max (insert a (insert (f m) (f ` set ms)))"
    by (cases "set ms = {}") (simp_all add: max.assoc)
  with Cons show ?case by simp
qed

lemma foldl_min_Min:
  fixes f :: "nat \<Rightarrow> int"
  shows "foldl (\<lambda>best m. min best (f m)) a ms = Min (insert a (f ` set ms))"
proof (induction ms arbitrary: a)
  case Nil
  show ?case by simp
next
  case (Cons m ms)
  have "Min (insert (min a (f m)) (f ` set ms)) = Min (insert a (insert (f m) (f ` set ms)))"
    by (cases "set ms = {}") (simp_all add: min.assoc)
  with Cons show ?case by simp
qed

lemma foldl_max_sentinel:
  fixes f :: "nat \<Rightarrow> int"
  assumes "ms \<noteq> []" and "\<forall>m \<in> set ms. a \<le> f m"
  shows "foldl (\<lambda>best m. max best (f m)) a ms = Max (f ` set ms)"
proof -
  have "Max (insert a (f ` set ms)) = max a (Max (f ` set ms))"
    using assms(1) by simp
  moreover have "a \<le> Max (f ` set ms)"
  proof -
    from assms(1) obtain m where m: "m \<in> set ms" by (cases ms) auto
    with assms(2) have "a \<le> f m" by simp
    also have "f m \<le> Max (f ` set ms)" using m by simp
    finally show ?thesis .
  qed
  ultimately show ?thesis by (simp add: foldl_max_Max)
qed

lemma foldl_min_sentinel:
  fixes f :: "nat \<Rightarrow> int"
  assumes "ms \<noteq> []" and "\<forall>m \<in> set ms. f m \<le> a"
  shows "foldl (\<lambda>best m. min best (f m)) a ms = Min (f ` set ms)"
proof -
  have "Min (insert a (f ` set ms)) = min a (Min (f ` set ms))"
    using assms(1) by simp
  moreover have "Min (f ` set ms) \<le> a"
  proof -
    from assms(1) obtain m where m: "m \<in> set ms" by (cases ms) auto
    have "Min (f ` set ms) \<le> f m" using m by simp
    also have "f m \<le> a" using m assms(2) by simp
    finally show ?thesis .
  qed
  ultimately show ?thesis by (simp add: foldl_min_Min)
qed

lemma minimax_ref_range: "wf_board b \<Longrightarrow> minimax_ref b turn \<in> {- 1, 0, 1}"
proof (induction "length (available_moves b)" arbitrary: b turn rule: less_induct)
  case less
  note wf = less.prems
  consider (ai) "winner b = Inr (Some AI)" | (human) "winner b = Inr (Some HUMAN)"
    | (draw) "winner b = Inr None" "available_moves b = []"
    | (search) "winner b = Inr None" "available_moves b \<noteq> []"
    using wf_winner_cases [OF wf] by auto
  then show ?case
  proof cases
    case ai
    then show ?thesis by (simp add: minimax_ref_won_AI)
  next
    case human
    then show ?thesis by (simp add: minimax_ref_won_HUMAN)
  next
    case draw
    then show ?thesis by (simp add: minimax_ref_drawn)
  next
    case search
    have child: "minimax_ref (b[m := p]) t \<in> {- 1, 0, 1}"
      if "m \<in> set (available_moves b)" and "p = AI \<or> p = HUMAN" for m p t
    proof -
      have "Suc (length (available_moves (b[m := p]))) = length (available_moves b)"
        using that by (intro available_moves_update) auto
      moreover have "wf_board (b[m := p])"
        using wf that(2) by (intro wf_board_update) auto
      ultimately show ?thesis using less.hyps [of "b[m := p]" t] by simp
    qed
    show ?thesis
    proof (cases "turn = AI")
      case True
      let ?f = "\<lambda>m. minimax_ref (b[m := AI]) HUMAN"
      have "\<forall>m \<in> set (available_moves b). - 10 \<le> ?f m"
        using child [of _ AI HUMAN] by fastforce
      then have "minimax_ref b turn = Max (?f ` set (available_moves b))"
        using search True by (simp add: minimax_ref_search foldl_max_sentinel)
      moreover have "Max (?f ` set (available_moves b)) \<in> ?f ` set (available_moves b)"
        using search(2) by (intro Max_in) simp_all
      ultimately obtain m where "m \<in> set (available_moves b)" "minimax_ref b turn = ?f m"
        by auto
      with child [of m AI HUMAN] show ?thesis by simp
    next
      case False
      let ?f = "\<lambda>m. minimax_ref (b[m := HUMAN]) AI"
      have "\<forall>m \<in> set (available_moves b). ?f m \<le> 10"
        using child [of _ HUMAN AI] by fastforce
      then have "minimax_ref b turn = Min (?f ` set (available_moves b))"
        using search False by (simp add: minimax_ref_search foldl_min_sentinel)
      moreover have "Min (?f ` set (available_moves b)) \<in> ?f ` set (available_moves b)"
        using search(2) by (intro Min_in) simp_all
      ultimately obtain m where "m \<in> set (available_moves b)" "minimax_ref b turn = ?f m"
        by auto
      with child [of m HUMAN AI] show ?thesis by simp
    qed
  qed
qed

lemma minimax_ref_Max:
  assumes "wf_board b" and "winner b = Inr None" and "available_moves b \<noteq> []"
  shows "minimax_ref b AI = Max ((\<lambda>m. minimax_ref (b[m := AI]) HUMAN) ` set (available_moves b))"
proof -
  have "\<forall>m \<in> set (available_moves b). - 10 \<le> minimax_ref (b[m := AI]) HUMAN"
  proof
    fix m assume "m \<in> set (available_moves b)"
    have "wf_board (b[m := AI])" using assms(1) by (intro wf_board_update) auto
    from minimax_ref_range [OF this, of HUMAN]
    show "- 10 \<le> minimax_ref (b[m := AI]) HUMAN" by auto
  qed
  with assms show ?thesis
    by (simp add: minimax_ref_search foldl_max_sentinel)
qed

lemma minimax_ref_Min:
  assumes "wf_board b" and "winner b = Inr None" and "available_moves b \<noteq> []" and "turn \<noteq> AI"
  shows "minimax_ref b turn = Min ((\<lambda>m. minimax_ref (b[m := HUMAN]) AI) ` set (available_moves b))"
proof -
  have "\<forall>m \<in> set (available_moves b). minimax_ref (b[m := HUMAN]) AI \<le> 10"
  proof
    fix m assume "m \<in> set (available_moves b)"
    have "wf_board (b[m := HUMAN])" using assms(1) by (intro wf_board_update) auto
    from minimax_ref_range [OF this, of AI]
    show "minimax_ref (b[m := HUMAN]) AI \<le> 10" by auto
  qed
  with assms show ?thesis
    by (simp add: minimax_ref_search foldl_min_sentinel)
qed

lemma minimax_stores:
  assumes "winner b = Inr None" and "available_moves b \<noteq> []"
    and "minimax fuel b turn memo = Returned (s, b', memo')"
  shows "memo' (board_key b turn) = Some s"
proof (cases "memo (board_key b turn)")
  case (Some v)
  with assms show ?thesis by (simp add: minimax_cached)
next
  case None
  show ?thesis
  proof (cases fuel)
    case 0
    with assms None show ?thesis by (simp add: minimax.simps is_draw_no_winner)
  next
    case (Suc n)
    with assms None show ?thesis
      by (auto simp: minimax_search split: if_splits outcome.splits)
  qed
qed

lemma wf_board_moves_le: "wf_board b \<Longrightarrow> length (available_moves b) \<le> 9"
  by (simp add: length_available_moves wf_board_def) (metis length_filter_le)

section \<open>Claims about the search engine\<close>

lemma minimax_returns:
  assumes "wf_board b" and "length (available_moves b) \<le> fuel"
  obtains s memo' where "minimax fuel b turn memo = Returned (s, b, memo')"
    and "memo_ok memo \<Longrightarrow> s = minimax_ref b turn \<and> memo_ok memo'"
  using minimax_post [OF assms, of memo turn] unfolding search_post_def by blast

text \<open>
  C2 (memoisation soundness). On every nine-cell board of marks and for every turn, the
  search started with an empty memo table and fuel for the free cells returns the score
  of the reference minimax, which has no memo table. The key is the concatenation of the
  nine cells followed by the turn, so two pairs of board and turn have the same key only
  when they are the same pair; and a search of an open position files its score under
  that key, where a later visit of the same board and turn finds it without any search
  (no fuel is needed and the table is left as it is).
\<close>

theorem minimax_memo_sound:
  assumes "wf_board b" and "wf_board b'" and "length (available_moves b) \<le> fuel"
  shows "(\<exists>memo'. minimax fuel b turn Map.empty = Returned (minimax_ref b turn, b, memo')
            \<and> (winner b = Inr None \<and> available_moves b \<noteq> [] \<longrightarrow>
                 memo' (board_key b turn) = Some (minimax_ref b turn)
                 \<and> minimax 0 b turn memo' = Returned (minimax_ref b turn, b, memo')))
         \<and> board_key b turn = concat b @ turn
         \<and> (board_key b turn = board_key b' turn' \<longleftrightarrow> b = b' \<and> turn = turn')"
proof (intro conjI)
  obtain s memo' where run: "minimax fuel b turn Map.empty = Returned (s, b, memo')"
    and ok: "memo_ok Map.empty \<Longrightarrow> s = minimax_ref b turn \<and> memo_ok memo'"
    using minimax_returns [OF assms(1,3)] by blast
  from ok have s: "s = minimax_ref b turn" by (simp add: memo_ok_empty)
  have "memo' (board_key b turn) = Some (minimax_ref b turn)
        \<and> minimax 0 b turn memo' = Returned (minimax_ref b turn, b, memo')"
    if "winner b = Inr None" and "available_moves b \<noteq> []"
  proof -
    from minimax_stores [OF that run] s
    have stored: "memo' (board_key b turn) = Some (minimax_ref b turn)" by simp
    with that show ?thesis by (simp add: minimax_cached)
  qed
  with run s
  show "\<exists>memo'. minimax fuel b turn Map.empty = Returned (minimax_ref b turn, b, memo')
            \<and> (winner b = Inr None \<and> available_moves b \<noteq> [] \<longrightarrow>
                 memo' (board_key b turn) = Some (minimax_ref b turn)
                 \<and> minimax 0 b turn memo' = Returned (minimax_ref b turn, b, memo'))"
    by blast
next
  show "board_key b turn = concat b @ turn" by (simp add: board_key_def)
next
  show "board_key b turn = board_key b' turn' \<longleftrightarrow> b = b' \<and> turn = turn'"
    using board_key_inj [OF assms(1,2)] by blast
qed

theorem minimax_memo_sound_witness:
  "\<exists>memo'. minimax 2 [AI, HUMAN, AI, HUMAN, AI, HUMAN, HUMAN, EMPTY, EMPTY] HUMAN Map.empty
      = Returned (0, [AI, HUMAN, AI, HUMAN, AI, HUMAN, HUMAN, EMPTY, EMPTY], memo')
    \<and> memo' (board_key [AI, HUMAN, AI, HUMAN, AI, HUMAN, HUMAN, EMPTY, EMPTY] HUMAN) = Some 0
    \<and> board_key [AI, HUMAN, AI, HUMAN, AI, HUMAN, HUMAN, EMPTY, EMPTY] HUMAN
        \<noteq> board_key [AI, HUMAN, AI, HUMAN, AI, HUMAN, HUMAN, EMPTY, EMPTY] AI"
proof -
  let ?b = "[AI, HUMAN, AI, HUMAN, AI, HUMAN, HUMAN, EMPTY, EMPTY]"
  have wf: "wf_board ?b"
    by (simp add: wf_board_def)
  have moves: "available_moves ?b = [7, 8]"
    by (simp add: available_moves_def AI_def HUMAN_def EMPTY_def)
  have nowin: "winner ?b = Inr None"
    by (simp add: winner_def WIN_LINES_def AI_def HUMAN_def EMPTY_def)
  have ref: "minimax_ref ?b HUMAN = 0"
    by code_simp
  from minimax_memo_sound [OF wf wf, of 2 HUMAN AI] moves nowin ref
  show ?thesis by auto
qed

text \<open>
  C9 (totality and score range). On every nine-cell board of marks, full or not, won or
  not, for every turn and every sound memo table (the empty one, and every table the
  search has filled), the search with fuel for the free cells returns: it neither raises
  nor runs out of fuel. The score is \<open>-1\<close>, \<open>0\<close> or \<open>1\<close>, never a sentinel. Nine units of
  fuel are enough for every board.
\<close>

theorem minimax_total_range:
  assumes "wf_board b" and "length (available_moves b) \<le> fuel" and "memo_ok memo"
  shows "\<exists>s memo'. minimax fuel b turn memo = Returned (s, b, memo')
           \<and> s \<in> {- 1, 0, 1} \<and> s \<noteq> - 10 \<and> s \<noteq> 10
           \<and> length (available_moves b) \<le> 9"
proof -
  obtain s memo' where run: "minimax fuel b turn memo = Returned (s, b, memo')"
    and ok: "memo_ok memo \<Longrightarrow> s = minimax_ref b turn \<and> memo_ok memo'"
    using minimax_returns [OF assms(1,2)] by blast
  from ok assms(3) have "s = minimax_ref b turn" by simp
  with minimax_ref_range [OF assms(1), of turn] have "s \<in> {- 1, 0, 1}" by simp
  moreover from this have "s \<noteq> - 10 \<and> s \<noteq> 10" by auto
  ultimately show ?thesis using run wf_board_moves_le [OF assms(1)] by blast
qed

theorem minimax_total_range_witness:
  "\<exists>memo'. minimax 2 [AI, HUMAN, EMPTY, HUMAN, AI, AI, HUMAN, AI, EMPTY] AI Map.empty
      = Returned (1, [AI, HUMAN, EMPTY, HUMAN, AI, AI, HUMAN, AI, EMPTY], memo')"
proof -
  let ?b = "[AI, HUMAN, EMPTY, HUMAN, AI, AI, HUMAN, AI, EMPTY]"
  have wf: "wf_board ?b"
    by (simp add: wf_board_def)
  have moves: "length (available_moves ?b) \<le> 2"
    by (simp add: available_moves_def AI_def HUMAN_def EMPTY_def)
  obtain s memo' where run: "minimax 2 ?b AI Map.empty = Returned (s, ?b, memo')"
    using minimax_total_range [OF wf moves memo_ok_empty, of AI] by blast
  moreover have "\<exists>m. minimax 2 ?b AI Map.empty = Returned (1, ?b, m)"
    by (simp add: minimax.simps is_draw_def available_moves_def winner_def WIN_LINES_def
        board_key_def AI_def HUMAN_def EMPTY_def)
  ultimately show ?thesis by auto
qed

section \<open>The move selector: what the loop computes\<close>

lemma winning_loop_frame:
  assumes "length b = 9"
  shows "set ms \<subseteq> set (available_moves b) \<Longrightarrow>
           \<exists>wins'. winning_loop ms b player wins = Inr (wins', b)"
proof (induction ms arbitrary: wins)
  case Nil
  show ?case by simp
next
  case (Cons m ms)
  from Cons.prems have m: "m \<in> set (available_moves b)" by simp
  obtain w where w: "winner (b[m := player]) = Inr w"
    using winner_total [of "b[m := player]"] assms by auto
  from Cons.prems have "set ms \<subseteq> set (available_moves b)" by simp
  from Cons.IH [OF this] w place_revert [OF m, of player]
  show ?case by simp
qed

lemma winning_moves_frame:
  "length b = 9 \<Longrightarrow> \<exists>wins. winning_moves b player = Inr (wins, b)"
  unfolding winning_moves_def by (rule winning_loop_frame) simp_all

text \<open>
  The loop of \<open>best_ai_move\<close> with the search replaced by the reference score: the
  move it settles on, from the free cells still to try, \<open>best_score\<close> and \<open>best_move\<close>.
\<close>

fun pick :: "board \<Rightarrow> nat list \<Rightarrow> int \<Rightarrow> int \<Rightarrow> int" where
  "pick b [] best_score best_move = best_move"
| "pick b (m # ms) best_score best_move =
     (if winner (b[m := AI]) = Inr (Some AI) then int m
      else if minimax_ref (b[m := AI]) HUMAN > best_score
        then pick b ms (minimax_ref (b[m := AI]) HUMAN) (int m)
      else pick b ms best_score best_move)"

lemma best_loop_pick:
  assumes wf: "wf_board b" and len: "length (available_moves b) \<le> Suc fuel"
  shows "set ms \<subseteq> set (available_moves b) \<Longrightarrow> memo_ok memo \<Longrightarrow>
           best_loop fuel ms b memo best_score best_move
             = Returned (pick b ms best_score best_move, b)"
proof (induction ms arbitrary: memo best_score best_move)
  case Nil
  show ?case by simp
next
  case (Cons m ms)
  let ?b1 = "b[m := AI]"
  from Cons.prems have m: "m \<in> set (available_moves b)"
    and rest: "set ms \<subseteq> set (available_moves b)" by simp_all
  have wf1: "wf_board ?b1" using wf by (rule wf_board_update) simp
  then have len9: "length ?b1 = 9" by (simp add: wf_board_def)
  have revert: "?b1[m := EMPTY] = b" using place_revert [OF m] .
  obtain w where w: "winner ?b1 = Inr w"
    using winner_total [OF len9] by blast
  show ?case
  proof (cases "w = Some AI")
    case True
    with w revert show ?thesis by simp
  next
    case False
    obtain threats where scan: "winning_moves ?b1 HUMAN = Inr (threats, ?b1)"
      using winning_moves_frame [OF len9] by blast
    have "Suc (length (available_moves ?b1)) = length (available_moves b)"
      using m by (rule available_moves_update) simp
    with len have len1: "length (available_moves ?b1) \<le> fuel" by simp
    obtain s memo' where run: "minimax fuel ?b1 HUMAN memo = Returned (s, ?b1, memo')"
      and ok: "memo_ok memo \<Longrightarrow> s = minimax_ref ?b1 HUMAN \<and> memo_ok memo'"
      using minimax_returns [OF wf1 len1] by blast
    from ok Cons.prems(2) have s: "s = minimax_ref ?b1 HUMAN" and ok': "memo_ok memo'"
      by simp_all
    show ?thesis
      using w False scan run s revert Cons.IH [OF rest ok'] by simp
  qed
qed

lemma best_ai_move_pick:
  assumes "wf_board b" and "length (available_moves b) \<le> Suc fuel"
  shows "best_ai_move fuel b = Returned (pick b (available_moves b) (- 10) (- 1), b)"
proof -
  from assms(1) have "length b = 9" by (simp add: wf_board_def)
  then obtain threats where "winning_moves b HUMAN = Inr (threats, b)"
    using winning_moves_frame by blast
  then show ?thesis
    using best_loop_pick [OF assms, of "available_moves b" Map.empty "- 10" "- 1"]
    by (simp add: best_ai_move_def memo_ok_empty)
qed

lemma pick_first_win:
  assumes "sorted_wrt (<) ms" and "m \<in> set ms" and "winner (b[m := AI]) = Inr (Some AI)"
    and "\<forall>m' \<in> set ms. m' < m \<longrightarrow> winner (b[m' := AI]) \<noteq> Inr (Some AI)"
  shows "pick b ms best_score best_move = int m"
  using assms
proof (induction ms arbitrary: best_score best_move)
  case Nil
  then show ?case by simp
next
  case (Cons x xs)
  show ?case
  proof (cases "x = m")
    case True
    with Cons.prems(3) show ?thesis by simp
  next
    case False
    with Cons.prems have "m \<in> set xs" and "x < m" by auto
    with Cons.prems have "winner (b[x := AI]) \<noteq> Inr (Some AI)" by simp
    moreover have "pick b xs s t = int m" for s t
      using Cons.IH [of s t] Cons.prems \<open>m \<in> set xs\<close> by simp
    ultimately show ?thesis by simp
  qed
qed

lemma pick_no_win:
  assumes "sorted_wrt (<) ms"
    and "\<forall>m \<in> set ms. winner (b[m := AI]) \<noteq> Inr (Some AI)"
  shows "(pick b ms best_score best_move = best_move
            \<and> (\<forall>m \<in> set ms. minimax_ref (b[m := AI]) HUMAN \<le> best_score))
         \<or> (\<exists>m \<in> set ms. pick b ms best_score best_move = int m
               \<and> best_score < minimax_ref (b[m := AI]) HUMAN
               \<and> (\<forall>m' \<in> set ms.
                     minimax_ref (b[m' := AI]) HUMAN \<le> minimax_ref (b[m := AI]) HUMAN
                     \<and> (m' < m \<longrightarrow>
                          minimax_ref (b[m' := AI]) HUMAN < minimax_ref (b[m := AI]) HUMAN)))"
  using assms
proof (induction ms arbitrary: best_score best_move)
  case Nil
  then show ?case by simp
next
  case (Cons x xs)
  let ?sc = "\<lambda>m. minimax_ref (b[m := AI]) HUMAN"
  from Cons.prems have sorted: "sorted_wrt (<) xs" and above: "\<forall>m \<in> set xs. x < m"
    and nowin: "\<forall>m \<in> set xs. winner (b[m := AI]) \<noteq> Inr (Some AI)"
    and nowin_x: "winner (b[x := AI]) \<noteq> Inr (Some AI)" by simp_all
  show ?case
  proof (cases "?sc x > best_score")
    case True
    then have unfold: "pick b (x # xs) best_score best_move = pick b xs (?sc x) (int x)"
      using nowin_x by simp
    from Cons.IH [OF sorted nowin, of "?sc x" "int x"]
    show ?thesis
    proof (elim disjE conjE bexE)
      assume "pick b xs (?sc x) (int x) = int x" and "\<forall>m \<in> set xs. ?sc m \<le> ?sc x"
      with unfold True above show ?thesis
        by (intro disjI2 bexI [of _ x]) auto
    next
      fix m assume "m \<in> set xs" and "pick b xs (?sc x) (int x) = int m"
        and "?sc x < ?sc m"
        and "\<forall>m' \<in> set xs. ?sc m' \<le> ?sc m \<and> (m' < m \<longrightarrow> ?sc m' < ?sc m)"
      with unfold True show ?thesis
        by (intro disjI2 bexI [of _ m]) auto
    qed
  next
    case False
    then have unfold: "pick b (x # xs) best_score best_move = pick b xs best_score best_move"
      using nowin_x by simp
    from Cons.IH [OF sorted nowin, of best_score best_move]
    show ?thesis
    proof (elim disjE conjE bexE)
      assume "pick b xs best_score best_move = best_move"
        and "\<forall>m \<in> set xs. ?sc m \<le> best_score"
      with unfold False show ?thesis by (intro disjI1) auto
    next
      fix m assume "m \<in> set xs" and "pick b xs best_score best_move = int m"
        and "best_score < ?sc m"
        and "\<forall>m' \<in> set xs. ?sc m' \<le> ?sc m \<and> (m' < m \<longrightarrow> ?sc m' < ?sc m)"
      with unfold False show ?thesis
        by (intro disjI2 bexI [of _ m]) auto
    qed
  qed
qed

lemma strict_sorted_available_moves: "sorted_wrt (<) (available_moves b)"
  using sorted_available_moves [of b] distinct_available_moves [of b]
  by (simp add: strict_sorted_iff)

section \<open>Completed lines\<close>

text \<open>
  A win line is completed on a board when its three cells hold the same mark and are not
  empty: the test of \<open>winner\<close>, as a predicate on the line. A free cell completes a line
  for a mark when, with the mark placed there, some win line through the cell holds the
  mark three times.
\<close>

definition line_complete :: "board \<Rightarrow> nat \<times> nat \<times> nat \<Rightarrow> bool" where
  "line_complete b l = (case l of (a, c, d) \<Rightarrow> b ! a \<noteq> EMPTY \<and> b ! a = b ! c \<and> b ! c = b ! d)"

definition completes_line :: "board \<Rightarrow> nat \<Rightarrow> string \<Rightarrow> bool" where
  "completes_line b m mark =
     list_ex (\<lambda>(a, c, d). (m = a \<or> m = c \<or> m = d)
                \<and> (b[m := mark]) ! a = mark \<and> (b[m := mark]) ! c = mark \<and> (b[m := mark]) ! d = mark)
       WIN_LINES"

lemma winner_scan_find:
  "\<forall>(a, c, d) \<in> set ls. a < length b \<and> c < length b \<and> d < length b \<Longrightarrow>
     winner_scan b ls = Inr (map_option (\<lambda>(a, c, d). b ! a) (find (line_complete b) ls))"
  by (induction b ls rule: winner_scan.induct) (auto simp: line_complete_def)

lemma winner_find:
  "length b = 9 \<Longrightarrow>
     winner b = Inr (map_option (\<lambda>(a, c, d). b ! a) (find (line_complete b) WIN_LINES))"
  unfolding winner_def by (rule winner_scan_find) (simp add: WIN_LINES_def)

lemma winner_None_iff:
  "length b = 9 \<Longrightarrow> winner b = Inr None \<longleftrightarrow> (\<forall>l \<in> set WIN_LINES. \<not> line_complete b l)"
  by (auto simp: winner_find find_None_iff)

lemma winner_Some_line:
  assumes "length b = 9" and "winner b = Inr (Some w)"
  obtains a c d where "(a, c, d) \<in> set WIN_LINES" and "line_complete b (a, c, d)"
    and "b ! a = w" and "b ! c = w" and "b ! d = w"
proof -
  from assms obtain l where l: "find (line_complete b) WIN_LINES = Some l"
    and w: "w = (case l of (a, c, d) \<Rightarrow> b ! a)"
    by (auto simp: winner_find)
  from l have "l \<in> set WIN_LINES" and "line_complete b l"
    by (auto simp: find_Some_iff)
  with w that show ?thesis
    by (cases l) (auto simp: line_complete_def)
qed

lemma win_lines_in_range: "(a, c, d) \<in> set WIN_LINES \<Longrightarrow> a < 9 \<and> c < 9 \<and> d < 9"
  by (auto simp: WIN_LINES_def)

lemma line_complete_elsewhere:
  assumes "m \<noteq> a" and "m \<noteq> c" and "m \<noteq> d"
  shows "line_complete (b[m := p]) (a, c, d) = line_complete b (a, c, d)"
  using assms by (simp add: line_complete_def)

lemma immediate_win_iff:
  assumes len: "length b = 9" and nowin: "winner b = Inr None" and m: "m < 9"
    and mark: "mark \<noteq> EMPTY"
  shows "winner (b[m := mark]) = Inr (Some mark) \<longleftrightarrow> completes_line b m mark"
proof
  let ?b1 = "b[m := mark]"
  have len1: "length ?b1 = 9" using len by simp
  assume "winner ?b1 = Inr (Some mark)"
  then obtain a c d where l: "(a, c, d) \<in> set WIN_LINES" and lc: "line_complete ?b1 (a, c, d)"
    and cells: "?b1 ! a = mark" "?b1 ! c = mark" "?b1 ! d = mark"
    using winner_Some_line [OF len1] by blast
  have "m = a \<or> m = c \<or> m = d"
  proof (rule ccontr)
    assume "\<not> (m = a \<or> m = c \<or> m = d)"
    with lc have "line_complete b (a, c, d)" by (simp add: line_complete_elsewhere)
    with l nowin len show False by (simp add: winner_None_iff)
  qed
  with l cells show "completes_line b m mark"
    by (auto simp: completes_line_def list_ex_iff)
next
  let ?b1 = "b[m := mark]"
  have len1: "length ?b1 = 9" using len by simp
  assume "completes_line b m mark"
  then obtain a c d where l: "(a, c, d) \<in> set WIN_LINES"
    and cells: "?b1 ! a = mark" "?b1 ! c = mark" "?b1 ! d = mark"
    by (auto simp: completes_line_def list_ex_iff)
  with mark have "line_complete ?b1 (a, c, d)" by (simp add: line_complete_def)
  with l have "winner ?b1 \<noteq> Inr None" using len1 by (auto simp: winner_None_iff)
  then obtain w where w: "winner ?b1 = Inr (Some w)"
    using winner_total [OF len1] by (metis option.exhaust)
  then obtain a' c' d' where l': "(a', c', d') \<in> set WIN_LINES"
    and lc': "line_complete ?b1 (a', c', d')"
    and cells': "?b1 ! a' = w" "?b1 ! c' = w" "?b1 ! d' = w"
    using winner_Some_line [OF len1] by blast
  have through: "m = a' \<or> m = c' \<or> m = d'"
  proof (rule ccontr)
    assume "\<not> (m = a' \<or> m = c' \<or> m = d')"
    with lc' have "line_complete b (a', c', d')" by (simp add: line_complete_elsewhere)
    with l' nowin len show False by (simp add: winner_None_iff)
  qed
  have "?b1 ! m = mark" using m len by simp
  with through cells' have "w = mark" by auto
  with w show "winner ?b1 = Inr (Some mark)" by simp
qed

section \<open>The move selector: the move returned\<close>

lemma pick_legal:
  assumes wf: "wf_board b" and moves: "available_moves b \<noteq> []"
  obtains m where "m \<in> set (available_moves b)"
    and "pick b (available_moves b) (- 10) (- 1) = int m"
proof (cases "\<exists>m \<in> set (available_moves b). winner (b[m := AI]) = Inr (Some AI)")
  case True
  define W where "W = {m \<in> set (available_moves b). winner (b[m := AI]) = Inr (Some AI)}"
  have fin: "finite W" and ne: "W \<noteq> {}" using True by (auto simp: W_def)
  then have "Min W \<in> W" by (rule Min_in)
  then have in_moves: "Min W \<in> set (available_moves b)"
    and wins: "winner (b[Min W := AI]) = Inr (Some AI)"
    unfolding W_def by blast+
  have least: "\<forall>m' \<in> set (available_moves b). m' < Min W \<longrightarrow>
      winner (b[m' := AI]) \<noteq> Inr (Some AI)"
  proof (intro ballI impI)
    fix m' assume m': "m' \<in> set (available_moves b)" and less: "m' < Min W"
    show "winner (b[m' := AI]) \<noteq> Inr (Some AI)"
    proof
      assume "winner (b[m' := AI]) = Inr (Some AI)"
      with m' have "m' \<in> W" unfolding W_def by blast
      with fin have "Min W \<le> m'" by (rule_tac Min_le)
      with less show False by simp
    qed
  qed
  have "pick b (available_moves b) (- 10) (- 1) = int (Min W)"
    by (rule pick_first_win [OF strict_sorted_available_moves in_moves wins least])
  with in_moves show ?thesis by (rule that)
next
  case False
  then have nowin: "\<forall>m \<in> set (available_moves b). winner (b[m := AI]) \<noteq> Inr (Some AI)"
    by simp
  from moves obtain x where x: "x \<in> set (available_moves b)" by (cases "available_moves b") auto
  have "wf_board (b[x := AI])" using wf by (rule wf_board_update) simp
  from minimax_ref_range [OF this, of HUMAN]
  have "\<not> minimax_ref (b[x := AI]) HUMAN \<le> - 10" by auto
  with x have "\<not> (\<forall>m \<in> set (available_moves b). minimax_ref (b[m := AI]) HUMAN \<le> - 10)"
    by blast
  with pick_no_win [OF strict_sorted_available_moves nowin, of "- 10" "- 1"]
  obtain m where "m \<in> set (available_moves b)"
    and "pick b (available_moves b) (- 10) (- 1) = int m"
    by (elim disjE conjE bexE) simp_all
  then show ?thesis by (rule that)
qed

lemma others_nonempty:
  assumes "distinct xs" and "x \<in> set xs" and "length xs \<noteq> 1"
  shows "filter (\<lambda>m. m \<noteq> x) xs \<noteq> []"
proof
  assume "filter (\<lambda>m. m \<noteq> x) xs = []"
  then have "set xs \<subseteq> {x}" by (auto simp: filter_empty_conv)
  with assms(2) have "set xs = {x}" by auto
  with assms(1) have "length xs = 1" using distinct_card [of xs] by simp
  with assms(3) show False by simp
qed

lemma choose_ai_move_result:
  assumes wf: "wf_board b" and moves: "available_moves b \<noteq> []"
    and len: "length (available_moves b) \<le> Suc fuel"
  obtains best where "best \<in> set (available_moves b)"
    and "best_ai_move fuel b = Returned (int best, b)"
    and "difficulty = ''hard'' \<or> length (available_moves b) = 1
           \<or> u < (if difficulty = ''medium'' then p_best_medium else p_best_easy) \<Longrightarrow>
         choose_ai_move fuel b difficulty u k = Returned (int best, b)"
    and "\<not> (difficulty = ''hard'' \<or> length (available_moves b) = 1
           \<or> u < (if difficulty = ''medium'' then p_best_medium else p_best_easy)) \<Longrightarrow>
         filter (\<lambda>m. m \<noteq> best) (available_moves b) \<noteq> []
         \<and> choose_ai_move fuel b difficulty u k
             = Returned (int (filter (\<lambda>m. m \<noteq> best) (available_moves b)
                                ! (k mod length (filter (\<lambda>m. m \<noteq> best) (available_moves b)))), b)"
proof -
  obtain best where best: "best \<in> set (available_moves b)"
    and pick: "pick b (available_moves b) (- 10) (- 1) = int best"
    using pick_legal [OF wf moves] by blast
  have run: "best_ai_move fuel b = Returned (int best, b)"
    using best_ai_move_pick [OF wf len] pick by simp
  have same: "filter (\<lambda>m. int m \<noteq> int best) (available_moves b)
                = filter (\<lambda>m. m \<noteq> best) (available_moves b)"
    by simp
  show ?thesis
  proof (rule that [of best])
    show "best \<in> set (available_moves b)" by (rule best)
    show "best_ai_move fuel b = Returned (int best, b)" by (rule run)
  next
    assume "difficulty = ''hard'' \<or> length (available_moves b) = 1
           \<or> u < (if difficulty = ''medium'' then p_best_medium else p_best_easy)"
    then show "choose_ai_move fuel b difficulty u k = Returned (int best, b)"
      using run by (auto simp: choose_ai_move_def Let_def)
  next
    assume mistake: "\<not> (difficulty = ''hard'' \<or> length (available_moves b) = 1
           \<or> u < (if difficulty = ''medium'' then p_best_medium else p_best_easy))"
    then have "length (available_moves b) \<noteq> 1" by simp
    with best have ne: "filter (\<lambda>m. m \<noteq> best) (available_moves b) \<noteq> []"
      by (intro others_nonempty distinct_available_moves)
    with mistake run same
    show "filter (\<lambda>m. m \<noteq> best) (available_moves b) \<noteq> []
         \<and> choose_ai_move fuel b difficulty u k
             = Returned (int (filter (\<lambda>m. m \<noteq> best) (available_moves b)
                                ! (k mod length (filter (\<lambda>m. m \<noteq> best) (available_moves b)))), b)"
      by (simp add: choose_ai_move_def Let_def random_choice_def)
  qed
qed

section \<open>Claims about terminal boards and about the board being restored\<close>

lemmas board_eval =
  wf_board_def available_moves_def winner_def WIN_LINES_def board_key_def is_draw_def
  winning_moves_def best_ai_move_def AI_def HUMAN_def EMPTY_def

text \<open>
  C3, as stated, fails: on a board with two completed lines of different marks \<open>winner\<close>
  returns the mark of the line that comes first in \<open>WIN_LINES\<close>, not the mark of each
  completed line. Here the middle row is completed by \<open>HUMAN\<close> and \<open>winner\<close> returns
  \<open>AI\<close>, the mark of the top row.
\<close>

theorem winner_first_line_counterexample:
  "(3, 4, 5) \<in> set WIN_LINES
   \<and> line_complete [AI, AI, AI, HUMAN, HUMAN, HUMAN, EMPTY, EMPTY, EMPTY] (3, 4, 5)
   \<and> [AI, AI, AI, HUMAN, HUMAN, HUMAN, EMPTY, EMPTY, EMPTY] ! 3 = HUMAN
   \<and> winner [AI, AI, AI, HUMAN, HUMAN, HUMAN, EMPTY, EMPTY, EMPTY] = Inr (Some AI)
   \<and> AI \<noteq> HUMAN"
  by (simp add: line_complete_def board_eval)

text \<open>
  C3 (terminal-state evaluation), amended. On every nine-cell board, \<open>winner\<close> returns the
  mark of the first completed line in the order of \<open>WIN_LINES\<close>; so when the completed
  lines all carry one mark, as on every board reached in play, it returns the mark of each
  completed line. When \<open>winner\<close> reports \<open>AI\<close> the search returns \<open>+1\<close>, when it reports
  \<open>HUMAN\<close> it returns \<open>-1\<close>, and on a board with no winner and no empty cell it returns
  \<open>0\<close>: with any fuel, none included, so without a recursive call, and with the memo
  table handed back as it was, whatever it holds.
\<close>

theorem terminal_evaluation:
  assumes "length b = 9"
  shows "(find (line_complete b) WIN_LINES = Some (a, c, d) \<longrightarrow> winner b = Inr (Some (b ! a)))
       \<and> ((a, c, d) \<in> set WIN_LINES \<and> line_complete b (a, c, d)
            \<and> (\<forall>l \<in> set WIN_LINES. line_complete b l \<longrightarrow> b ! fst l = b ! a)
            \<longrightarrow> winner b = Inr (Some (b ! a)))
       \<and> (winner b = Inr (Some AI) \<longrightarrow> minimax fuel b turn memo = Returned (1, b, memo))
       \<and> (winner b = Inr (Some HUMAN) \<longrightarrow> minimax fuel b turn memo = Returned (- 1, b, memo))
       \<and> (winner b = Inr None \<and> EMPTY \<notin> set b \<longrightarrow> minimax fuel b turn memo = Returned (0, b, memo))"
proof (intro conjI impI)
  assume "find (line_complete b) WIN_LINES = Some (a, c, d)"
  then show "winner b = Inr (Some (b ! a))" using assms by (simp add: winner_find)
next
  assume *: "(a, c, d) \<in> set WIN_LINES \<and> line_complete b (a, c, d)
            \<and> (\<forall>l \<in> set WIN_LINES. line_complete b l \<longrightarrow> b ! fst l = b ! a)"
  then have "find (line_complete b) WIN_LINES \<noteq> None" by (auto simp: find_None_iff)
  then obtain l where l: "find (line_complete b) WIN_LINES = Some l" by blast
  then have "l \<in> set WIN_LINES" and "line_complete b l" by (auto simp: find_Some_iff)
  with * have "b ! fst l = b ! a" by blast
  with l show "winner b = Inr (Some (b ! a))"
    using assms by (cases l) (simp add: winner_find)
next
  assume "winner b = Inr (Some AI)"
  then show "minimax fuel b turn memo = Returned (1, b, memo)" by (rule minimax_won_AI)
next
  assume "winner b = Inr (Some HUMAN)"
  then show "minimax fuel b turn memo = Returned (- 1, b, memo)" by (rule minimax_won_HUMAN)
next
  assume "winner b = Inr None \<and> EMPTY \<notin> set b"
  then have "winner b = Inr None" and "available_moves b = []"
    by (auto simp: no_moves_iff list_all_iff)
  then show "minimax fuel b turn memo = Returned (0, b, memo)" by (rule minimax_drawn)
qed

theorem terminal_evaluation_witness:
  "winner [HUMAN, HUMAN, EMPTY, AI, AI, AI, EMPTY, EMPTY, HUMAN] = Inr (Some AI)
   \<and> minimax 0 [HUMAN, HUMAN, EMPTY, AI, AI, AI, EMPTY, EMPTY, HUMAN] HUMAN Map.empty
       = Returned (1, [HUMAN, HUMAN, EMPTY, AI, AI, AI, EMPTY, EMPTY, HUMAN], Map.empty)
   \<and> minimax 0 [AI, HUMAN, AI, AI, HUMAN, HUMAN, HUMAN, AI, AI] HUMAN Map.empty
       = Returned (0, [AI, HUMAN, AI, AI, HUMAN, HUMAN, HUMAN, AI, AI], Map.empty)"
proof -
  let ?w = "[HUMAN, HUMAN, EMPTY, AI, AI, AI, EMPTY, EMPTY, HUMAN]"
  let ?d = "[AI, HUMAN, AI, AI, HUMAN, HUMAN, HUMAN, AI, AI]"
  have "find (line_complete ?w) WIN_LINES = Some (3, 4, 5)"
    by (simp add: line_complete_def WIN_LINES_def AI_def HUMAN_def EMPTY_def)
  with terminal_evaluation [of ?w 3 4 5 0 HUMAN Map.empty]
  have "winner ?w = Inr (Some AI)"
    and "minimax 0 ?w HUMAN Map.empty = Returned (1, ?w, Map.empty)" by simp_all
  moreover have "winner ?d = Inr None" and "EMPTY \<notin> set ?d"
    by (simp_all add: board_eval)
  with terminal_evaluation [of ?d 0 0 0 0 HUMAN Map.empty]
  have "minimax 0 ?d HUMAN Map.empty = Returned (0, ?d, Map.empty)" by simp
  ultimately show ?thesis by simp
qed

text \<open>
  C4 (move/revert symmetry and purity). On every nine-cell board of marks, with fuel for
  the free cells: the search returns the board it was given, whatever the turn and
  whatever the memo table holds; a second search from an empty table, on the board the
  first one left, returns the same score and board; \<open>winning_moves\<close> returns the board it
  was given, for every player; \<open>best_ai_move\<close> returns the board it was given; and its
  early return on an immediate win at a free cell returns the board as it was before the
  trial move.
\<close>

theorem board_restored:
  assumes "wf_board b" and "length (available_moves b) \<le> fuel"
  shows "(\<exists>s memo'. minimax fuel b turn memo = Returned (s, b, memo'))
       \<and> (\<exists>s m1 m2. minimax fuel b turn Map.empty = Returned (s, b, m1)
             \<and> (case minimax fuel b turn Map.empty of
                   Returned (s1, b1, m) \<Rightarrow> minimax fuel b1 turn Map.empty
                 | r \<Rightarrow> r) = Returned (s, b, m2))
       \<and> (\<exists>wins. winning_moves b player = Inr (wins, b))
       \<and> (\<exists>move. best_ai_move fuel b = Returned (move, b))
       \<and> (m \<in> set (available_moves b) \<and> winner (b[m := AI]) = Inr (Some AI) \<longrightarrow>
            best_loop fuel0 (m # ms) b memo0 best_score best_move = Returned (int m, b))"
proof (intro conjI impI)
  show "\<exists>s memo'. minimax fuel b turn memo = Returned (s, b, memo')"
    using minimax_returns [OF assms, of turn memo] by blast
next
  obtain s m1 where "minimax fuel b turn Map.empty = Returned (s, b, m1)"
    using minimax_returns [OF assms, of turn Map.empty] by blast
  then show "\<exists>s m1 m2. minimax fuel b turn Map.empty = Returned (s, b, m1)
             \<and> (case minimax fuel b turn Map.empty of
                   Returned (s1, b1, m) \<Rightarrow> minimax fuel b1 turn Map.empty
                 | r \<Rightarrow> r) = Returned (s, b, m2)"
    by simp
next
  from assms(1) have "length b = 9" by (simp add: wf_board_def)
  then show "\<exists>wins. winning_moves b player = Inr (wins, b)" by (rule winning_moves_frame)
next
  from assms(2) have "length (available_moves b) \<le> Suc fuel" by simp
  from best_ai_move_pick [OF assms(1) this]
  show "\<exists>move. best_ai_move fuel b = Returned (move, b)" by blast
next
  assume "m \<in> set (available_moves b) \<and> winner (b[m := AI]) = Inr (Some AI)"
  then show "best_loop fuel0 (m # ms) b memo0 best_score best_move = Returned (int m, b)"
    by (simp add: set_available_moves list_update_same_conv)
qed

theorem board_restored_witness:
  "(\<exists>s memo'. minimax 3 [AI, HUMAN, AI, HUMAN, HUMAN, EMPTY, EMPTY, AI, EMPTY] AI Map.empty
       = Returned (s, [AI, HUMAN, AI, HUMAN, HUMAN, EMPTY, EMPTY, AI, EMPTY], memo'))
   \<and> (\<exists>wins. winning_moves [AI, HUMAN, AI, HUMAN, HUMAN, EMPTY, EMPTY, AI, EMPTY] HUMAN
         = Inr (wins, [AI, HUMAN, AI, HUMAN, HUMAN, EMPTY, EMPTY, AI, EMPTY]))
   \<and> best_ai_move 3 [AI, HUMAN, AI, HUMAN, HUMAN, EMPTY, EMPTY, AI, EMPTY]
        = Returned (5, [AI, HUMAN, AI, HUMAN, HUMAN, EMPTY, EMPTY, AI, EMPTY])"
proof -
  let ?b = "[AI, HUMAN, AI, HUMAN, HUMAN, EMPTY, EMPTY, AI, EMPTY]"
  have wf: "wf_board ?b" by (simp add: wf_board_def)
  have len: "length (available_moves ?b) \<le> 3"
    by (simp add: available_moves_def AI_def HUMAN_def EMPTY_def)
  have "best_ai_move 3 ?b = Returned (5, ?b)"
    by (simp add: board_eval minimax.simps)
  with board_restored [OF wf len, of AI Map.empty HUMAN]
  show ?thesis by blast
qed

section \<open>Claims about the move selector\<close>

text \<open>
  C6, as stated, fails twice. \<open>select_ai_move\<close> is \<open>choose_ai_move\<close>, which on the board
  of the claim returns cell 2 only when it plays the perfect move: at difficulty "easy"
  with a draw of \<open>7/8\<close> it returns cell 5. And \<open>best_ai_move\<close> recognises an immediate win
  by \<open>winner\<close>, which reports the first completed line: on a board that \<open>HUMAN\<close> has
  already won, cell 8 completes the bottom row for \<open>AI\<close> and no lower free cell completes
  a line, yet \<open>best_ai_move\<close> returns cell 3.
\<close>

theorem immediate_win_counterexample:
  "completes_line [AI, AI, EMPTY, HUMAN, HUMAN, EMPTY, EMPTY, EMPTY, EMPTY] 2 AI
   \<and> choose_ai_move 0 [AI, AI, EMPTY, HUMAN, HUMAN, EMPTY, EMPTY, EMPTY, EMPTY] ''easy'' (7 / 8) 0
       = Returned (5, [AI, AI, EMPTY, HUMAN, HUMAN, EMPTY, EMPTY, EMPTY, EMPTY])
   \<and> available_moves [HUMAN, HUMAN, HUMAN, EMPTY, EMPTY, EMPTY, AI, AI, EMPTY] = [3, 4, 5, 8]
   \<and> completes_line [HUMAN, HUMAN, HUMAN, EMPTY, EMPTY, EMPTY, AI, AI, EMPTY] 8 AI
   \<and> \<not> completes_line [HUMAN, HUMAN, HUMAN, EMPTY, EMPTY, EMPTY, AI, AI, EMPTY] 3 AI
   \<and> \<not> completes_line [HUMAN, HUMAN, HUMAN, EMPTY, EMPTY, EMPTY, AI, AI, EMPTY] 4 AI
   \<and> \<not> completes_line [HUMAN, HUMAN, HUMAN, EMPTY, EMPTY, EMPTY, AI, AI, EMPTY] 5 AI
   \<and> best_ai_move 4 [HUMAN, HUMAN, HUMAN, EMPTY, EMPTY, EMPTY, AI, AI, EMPTY]
       = Returned (3, [HUMAN, HUMAN, HUMAN, EMPTY, EMPTY, EMPTY, AI, AI, EMPTY])"
  by (simp add: completes_line_def board_eval choose_ai_move_def random_choice_def
      p_best_easy_def minimax.simps)

text \<open>
  C6 (immediate-win priority), amended. On every nine-cell board of marks with no
  completed line, when some free cell completes a win line for \<open>AI\<close>, \<open>best_ai_move\<close>
  returns the lowest such cell, and so does \<open>choose_ai_move\<close> at difficulty "hard". The
  loop returns at that cell without a search and without looking at the cells after it:
  whatever the fuel, the memo table and the rest of the list. On the board of the claim
  \<open>best_ai_move\<close> returns cell 2 with no fuel at all, and \<open>choose_ai_move\<close> returns it at
  difficulty "hard".
\<close>

theorem immediate_win_priority:
  assumes "wf_board b" and "winner b = Inr None" and "length (available_moves b) \<le> Suc fuel"
    and "m \<in> set (available_moves b)" and "completes_line b m AI"
    and "\<forall>m' \<in> set (available_moves b). m' < m \<longrightarrow> \<not> completes_line b m' AI"
  shows "best_ai_move fuel b = Returned (int m, b)
       \<and> choose_ai_move fuel b ''hard'' u k = Returned (int m, b)
       \<and> best_loop fuel0 (m # ms) b memo0 best_score best_move = Returned (int m, b)
       \<and> best_ai_move fuel0 [AI, AI, EMPTY, HUMAN, HUMAN, EMPTY, EMPTY, EMPTY, EMPTY]
           = Returned (2, [AI, AI, EMPTY, HUMAN, HUMAN, EMPTY, EMPTY, EMPTY, EMPTY])
       \<and> choose_ai_move fuel0 [AI, AI, EMPTY, HUMAN, HUMAN, EMPTY, EMPTY, EMPTY, EMPTY] ''hard'' u k
           = Returned (2, [AI, AI, EMPTY, HUMAN, HUMAN, EMPTY, EMPTY, EMPTY, EMPTY])"
proof -
  from assms(1) have len: "length b = 9" by (simp add: wf_board_def)
  have test: "winner (b[x := AI]) = Inr (Some AI) \<longleftrightarrow> completes_line b x AI"
    if "x \<in> set (available_moves b)" for x
    using that len by (intro immediate_win_iff assms(2)) (simp_all add: set_available_moves)
  have wins: "winner (b[m := AI]) = Inr (Some AI)" using test assms(4,5) by simp
  have least: "\<forall>m' \<in> set (available_moves b). m' < m \<longrightarrow> winner (b[m' := AI]) \<noteq> Inr (Some AI)"
    using test assms(6) by simp
  have "pick b (available_moves b) (- 10) (- 1) = int m"
    by (rule pick_first_win [OF strict_sorted_available_moves assms(4) wins least])
  with best_ai_move_pick [OF assms(1,3)]
  have run: "best_ai_move fuel b = Returned (int m, b)" by simp
  then have hard: "choose_ai_move fuel b ''hard'' u k = Returned (int m, b)"
    by (simp add: choose_ai_move_def)
  have early: "best_loop fuel0 (m # ms) b memo0 best_score best_move = Returned (int m, b)"
    using wins assms(4) by (simp add: set_available_moves list_update_same_conv)
  have inst: "best_ai_move fuel0 [AI, AI, EMPTY, HUMAN, HUMAN, EMPTY, EMPTY, EMPTY, EMPTY]
           = Returned (2, [AI, AI, EMPTY, HUMAN, HUMAN, EMPTY, EMPTY, EMPTY, EMPTY])"
    by (simp add: board_eval)
  then have "choose_ai_move fuel0 [AI, AI, EMPTY, HUMAN, HUMAN, EMPTY, EMPTY, EMPTY, EMPTY] ''hard'' u k
           = Returned (2, [AI, AI, EMPTY, HUMAN, HUMAN, EMPTY, EMPTY, EMPTY, EMPTY])"
    by (simp add: choose_ai_move_def)
  with run hard early inst show ?thesis by simp
qed

theorem immediate_win_priority_witness:
  "best_ai_move 2 [AI, HUMAN, AI, HUMAN, HUMAN, AI, EMPTY, EMPTY, EMPTY]
     = Returned (8, [AI, HUMAN, AI, HUMAN, HUMAN, AI, EMPTY, EMPTY, EMPTY])
   \<and> choose_ai_move 2 [AI, HUMAN, AI, HUMAN, HUMAN, AI, EMPTY, EMPTY, EMPTY] ''hard'' (7 / 8) 0
     = Returned (8, [AI, HUMAN, AI, HUMAN, HUMAN, AI, EMPTY, EMPTY, EMPTY])"
proof -
  let ?b = "[AI, HUMAN, AI, HUMAN, HUMAN, AI, EMPTY, EMPTY, EMPTY]"
  have "wf_board ?b" and "winner ?b = Inr None" and "length (available_moves ?b) \<le> Suc 2"
    and "8 \<in> set (available_moves ?b)" and "completes_line ?b 8 AI"
    and "\<forall>m' \<in> set (available_moves ?b). m' < 8 \<longrightarrow> \<not> completes_line ?b m' AI"
    by (simp_all add: completes_line_def board_eval)
  from immediate_win_priority [OF this, of "7 / 8" 0] show ?thesis by simp
qed

text \<open>
  C7 (difficulty modulation). On every nine-cell board of marks with a free cell, for
  every difficulty string, every draw \<open>u\<close> and every index draw \<open>k\<close>: \<open>best_ai_move\<close>
  returns a free cell, the perfect move. At difficulty "hard", or with one free cell,
  \<open>choose_ai_move\<close> returns it. Otherwise \<open>choose_ai_move\<close> returns it exactly when \<open>u\<close> is
  below the probability of the difficulty (the double \<open>0.7\<close> for "medium", the double
  \<open>0.35\<close> for anything else), and returns another free cell when it is not. The two
  doubles are the ones nearest to \<open>7/10\<close> and \<open>35/100\<close>.
\<close>

theorem difficulty_modulation:
  assumes "wf_board b" and "available_moves b \<noteq> []"
    and "length (available_moves b) \<le> Suc fuel"
  shows "\<exists>best. best \<in> set (available_moves b)
           \<and> best_ai_move fuel b = Returned (int best, b)
           \<and> (difficulty = ''hard'' \<or> length (available_moves b) = 1 \<longrightarrow>
                choose_ai_move fuel b difficulty u k = Returned (int best, b))
           \<and> (difficulty \<noteq> ''hard'' \<and> length (available_moves b) \<noteq> 1 \<longrightarrow>
                (choose_ai_move fuel b difficulty u k = Returned (int best, b)
                   \<longleftrightarrow> u < (if difficulty = ''medium'' then p_best_medium else p_best_easy))
                \<and> (\<not> u < (if difficulty = ''medium'' then p_best_medium else p_best_easy) \<longrightarrow>
                     (\<exists>mv \<in> set (available_moves b). mv \<noteq> best
                        \<and> choose_ai_move fuel b difficulty u k = Returned (int mv, b))))
           \<and> \<bar>p_best_medium - 7 / 10\<bar> < 1 / 2 ^ 54 \<and> \<bar>p_best_easy - 35 / 100\<bar> < 1 / 2 ^ 55"
proof -
  let ?p = "if difficulty = ''medium'' then p_best_medium else p_best_easy"
  let ?perfect = "difficulty = ''hard'' \<or> length (available_moves b) = 1 \<or> u < ?p"
  obtain best where best: "best \<in> set (available_moves b)"
    and run: "best_ai_move fuel b = Returned (int best, b)"
    and perfect: "?perfect \<Longrightarrow> choose_ai_move fuel b difficulty u k = Returned (int best, b)"
    and mistake: "\<not> ?perfect \<Longrightarrow>
         filter (\<lambda>m. m \<noteq> best) (available_moves b) \<noteq> []
         \<and> choose_ai_move fuel b difficulty u k
             = Returned (int (filter (\<lambda>m. m \<noteq> best) (available_moves b)
                                ! (k mod length (filter (\<lambda>m. m \<noteq> best) (available_moves b)))), b)"
    using choose_ai_move_result [OF assms, of difficulty u k] by blast
  let ?others = "filter (\<lambda>m. m \<noteq> best) (available_moves b)"
  let ?mv = "?others ! (k mod length ?others)"
  have other: "?mv \<in> set (available_moves b) \<and> ?mv \<noteq> best
               \<and> choose_ai_move fuel b difficulty u k = Returned (int ?mv, b)"
    if "\<not> ?perfect"
  proof -
    from mistake [OF that] have ne: "?others \<noteq> []"
      and res: "choose_ai_move fuel b difficulty u k = Returned (int ?mv, b)" by simp_all
    from ne have "?mv \<in> set ?others" by (intro nth_mem) simp
    with res show ?thesis by simp
  qed
  have easy_part: "(choose_ai_move fuel b difficulty u k = Returned (int best, b) \<longleftrightarrow> u < ?p)
          \<and> (\<not> u < ?p \<longrightarrow> (\<exists>mv \<in> set (available_moves b). mv \<noteq> best
                        \<and> choose_ai_move fuel b difficulty u k = Returned (int mv, b)))"
    if "difficulty \<noteq> ''hard'' \<and> length (available_moves b) \<noteq> 1"
  proof (cases "u < ?p")
    case True
    with perfect show ?thesis by simp
  next
    case False
    with that have "\<not> ?perfect" by simp
    from other [OF this] False show ?thesis by auto
  qed
  have "\<bar>p_best_medium - 7 / 10\<bar> < 1 / 2 ^ 54" and "\<bar>p_best_easy - 35 / 100\<bar> < 1 / 2 ^ 55"
    by (simp_all add: p_best_medium_def p_best_easy_def)
  with best run perfect easy_part show ?thesis by blast
qed

theorem difficulty_modulation_witness:
  "choose_ai_move 2 [AI, HUMAN, AI, HUMAN, HUMAN, EMPTY, EMPTY, AI, EMPTY] ''hard'' (7 / 8) 1
     = Returned (5, [AI, HUMAN, AI, HUMAN, HUMAN, EMPTY, EMPTY, AI, EMPTY])
   \<and> choose_ai_move 2 [AI, HUMAN, AI, HUMAN, HUMAN, EMPTY, EMPTY, AI, EMPTY] ''medium'' (1 / 2) 1
     = Returned (5, [AI, HUMAN, AI, HUMAN, HUMAN, EMPTY, EMPTY, AI, EMPTY])
   \<and> choose_ai_move 2 [AI, HUMAN, AI, HUMAN, HUMAN, EMPTY, EMPTY, AI, EMPTY] ''medium'' (7 / 8) 1
     \<noteq> Returned (5, [AI, HUMAN, AI, HUMAN, HUMAN, EMPTY, EMPTY, AI, EMPTY])"
proof -
  let ?b = "[AI, HUMAN, AI, HUMAN, HUMAN, EMPTY, EMPTY, AI, EMPTY]"
  have wf: "wf_board ?b" and moves: "available_moves ?b \<noteq> []"
    and len: "length (available_moves ?b) \<le> Suc 2" and three: "length (available_moves ?b) \<noteq> 1"
    by (simp_all add: board_eval)
  have best: "best_ai_move 2 ?b = Returned (5, ?b)"
    by (simp add: board_eval minimax.simps)
  have low: "(1 / 2 :: real) < p_best_medium" and high: "\<not> (7 / 8 :: real) < p_best_medium"
    by (simp_all add: p_best_medium_def)
  from difficulty_modulation [OF wf moves len, of "''hard''" "7 / 8" 1] best
  have "choose_ai_move 2 ?b ''hard'' (7 / 8) 1 = Returned (5, ?b)" by auto
  moreover from difficulty_modulation [OF wf moves len, of "''medium''" "1 / 2" 1] best three low
  have "choose_ai_move 2 ?b ''medium'' (1 / 2) 1 = Returned (5, ?b)" by auto
  moreover from difficulty_modulation [OF wf moves len, of "''medium''" "7 / 8" 1] best three high
  have "choose_ai_move 2 ?b ''medium'' (7 / 8) 1 \<noteq> Returned (5, ?b)" by auto
  ultimately show ?thesis by simp
qed

text \<open>
  C8 (mistake move exclusion). On every nine-cell board of marks with more than one free
  cell, at a difficulty other than "hard" and with a draw \<open>u\<close> not below the probability
  of the difficulty, \<open>choose_ai_move\<close> returns the cell that the index draw selects in the
  list of the free cells other than the perfect move. That list is not empty and holds
  each of those cells once, so the cell returned is free, is not the perfect move, and
  each free cell other than the perfect move is returned for exactly one index: an index
  drawn uniformly gives a cell drawn uniformly.
\<close>

theorem mistake_move_exclusion:
  assumes "wf_board b" and "length (available_moves b) \<le> Suc fuel"
    and "difficulty \<noteq> ''hard''" and "1 < length (available_moves b)"
    and "\<not> u < (if difficulty = ''medium'' then p_best_medium else p_best_easy)"
  shows "\<exists>best others. best_ai_move fuel b = Returned (int best, b)
           \<and> others = filter (\<lambda>m. m \<noteq> best) (available_moves b)
           \<and> others \<noteq> []
           \<and> choose_ai_move fuel b difficulty u k = Returned (int (others ! (k mod length others)), b)
           \<and> others ! (k mod length others) \<in> set (available_moves b)
           \<and> others ! (k mod length others) \<noteq> best
           \<and> bij_betw (\<lambda>j. others ! j) {..<length others} (set (available_moves b) - {best})"
proof -
  from assms(4) have moves: "available_moves b \<noteq> []" by auto
  have mistake: "\<not> (difficulty = ''hard'' \<or> length (available_moves b) = 1
           \<or> u < (if difficulty = ''medium'' then p_best_medium else p_best_easy))"
    using assms(3,4,5) by simp
  obtain best where run: "best_ai_move fuel b = Returned (int best, b)"
    and res: "filter (\<lambda>m. m \<noteq> best) (available_moves b) \<noteq> []
         \<and> choose_ai_move fuel b difficulty u k
             = Returned (int (filter (\<lambda>m. m \<noteq> best) (available_moves b)
                                ! (k mod length (filter (\<lambda>m. m \<noteq> best) (available_moves b)))), b)"
    using choose_ai_move_result [OF assms(1) moves assms(2), of difficulty u k] mistake
    by blast
  define others where "others = filter (\<lambda>m. m \<noteq> best) (available_moves b)"
  from res have ne: "others \<noteq> []"
    and chosen: "choose_ai_move fuel b difficulty u k
                   = Returned (int (others ! (k mod length others)), b)"
    by (simp_all add: others_def)
  from ne have "others ! (k mod length others) \<in> set others" by (intro nth_mem) simp
  then have legal: "others ! (k mod length others) \<in> set (available_moves b)"
    and differs: "others ! (k mod length others) \<noteq> best"
    by (simp_all add: others_def)
  have "distinct others" by (simp add: others_def distinct_available_moves)
  moreover have "set others = set (available_moves b) - {best}"
    by (auto simp: others_def)
  ultimately have "bij_betw (\<lambda>j. others ! j) {..<length others} (set (available_moves b) - {best})"
    by (intro bij_betw_nth) simp_all
  with run ne chosen legal differs others_def show ?thesis by blast
qed

theorem mistake_move_exclusion_witness:
  "choose_ai_move 2 [AI, HUMAN, AI, HUMAN, HUMAN, EMPTY, EMPTY, AI, EMPTY] ''easy'' (7 / 8) 0
     = Returned (6, [AI, HUMAN, AI, HUMAN, HUMAN, EMPTY, EMPTY, AI, EMPTY])
   \<and> choose_ai_move 2 [AI, HUMAN, AI, HUMAN, HUMAN, EMPTY, EMPTY, AI, EMPTY] ''easy'' (7 / 8) 1
     = Returned (8, [AI, HUMAN, AI, HUMAN, HUMAN, EMPTY, EMPTY, AI, EMPTY])"
proof -
  let ?b = "[AI, HUMAN, AI, HUMAN, HUMAN, EMPTY, EMPTY, AI, EMPTY]"
  have wf: "wf_board ?b" and len: "length (available_moves ?b) \<le> Suc 2"
    and more: "1 < length (available_moves ?b)" and moves: "available_moves ?b = [5, 6, 8]"
    by (simp_all add: board_eval)
  have diff: "''easy'' \<noteq> ''hard''" by simp
  have high: "\<not> (7 / 8 :: real) < (if ''easy'' = ''medium'' then p_best_medium else p_best_easy)"
    by (simp add: p_best_easy_def)
  have best: "best_ai_move 2 ?b = Returned (5, ?b)"
    by (simp add: board_eval minimax.simps)
  from mistake_move_exclusion [OF wf len diff more high, of 0] best moves
  have "choose_ai_move 2 ?b ''easy'' (7 / 8) 0 = Returned (6, ?b)" by auto
  moreover from mistake_move_exclusion [OF wf len diff more high, of 1] best moves
  have "choose_ai_move 2 ?b ''easy'' (7 / 8) 1 = Returned (8, ?b)" by auto
  ultimately show ?thesis by simp
qed

text \<open>
  C10 (legal move at the public interface). On every nine-cell board of marks with a free
  cell, for every difficulty string, every draw and every index draw, \<open>choose_ai_move\<close>
  returns the board as it was and a cell that is among the free cells: an index below 9
  whose cell is empty. The assignment \<open>b[move] = AI\<close> of the game loop then writes that
  cell and no other.
\<close>

theorem ai_move_legal:
  assumes "wf_board b" and "available_moves b \<noteq> []"
    and "length (available_moves b) \<le> Suc fuel"
  shows "\<exists>mv. choose_ai_move fuel b difficulty u k = Returned (int mv, b)
           \<and> mv \<in> set (available_moves b) \<and> mv < 9 \<and> b ! mv = EMPTY
           \<and> setitem b (int mv) AI = Inr (b[mv := AI])"
proof -
  let ?perfect = "difficulty = ''hard'' \<or> length (available_moves b) = 1
           \<or> u < (if difficulty = ''medium'' then p_best_medium else p_best_easy)"
  obtain best where best: "best \<in> set (available_moves b)"
    and perfect: "?perfect \<Longrightarrow> choose_ai_move fuel b difficulty u k = Returned (int best, b)"
    and mistake: "\<not> ?perfect \<Longrightarrow>
         filter (\<lambda>m. m \<noteq> best) (available_moves b) \<noteq> []
         \<and> choose_ai_move fuel b difficulty u k
             = Returned (int (filter (\<lambda>m. m \<noteq> best) (available_moves b)
                                ! (k mod length (filter (\<lambda>m. m \<noteq> best) (available_moves b)))), b)"
    using choose_ai_move_result [OF assms, of difficulty u k] by blast
  have "\<exists>mv. choose_ai_move fuel b difficulty u k = Returned (int mv, b)
           \<and> mv \<in> set (available_moves b)"
  proof (cases ?perfect)
    case True
    with perfect best show ?thesis by blast
  next
    case False
    let ?others = "filter (\<lambda>m. m \<noteq> best) (available_moves b)"
    from mistake [OF False] have ne: "?others \<noteq> []"
      and res: "choose_ai_move fuel b difficulty u k
                  = Returned (int (?others ! (k mod length ?others)), b)" by simp_all
    from ne have "?others ! (k mod length ?others) \<in> set ?others" by (intro nth_mem) simp
    then have "?others ! (k mod length ?others) \<in> set (available_moves b)" by simp
    with res show ?thesis by blast
  qed
  then obtain mv where res: "choose_ai_move fuel b difficulty u k = Returned (int mv, b)"
    and mv: "mv \<in> set (available_moves b)" by blast
  from mv assms(1) have "mv < 9" and "b ! mv = EMPTY" and "mv < length b"
    by (simp_all add: set_available_moves wf_board_def)
  moreover from this have "setitem b (int mv) AI = Inr (b[mv := AI])"
    by (simp add: setitem_def Let_def)
  ultimately show ?thesis using res mv by blast
qed

theorem ai_move_legal_witness:
  "\<exists>mv. choose_ai_move 2 [AI, HUMAN, AI, HUMAN, HUMAN, EMPTY, EMPTY, AI, EMPTY] ''easy'' (7 / 8) 1
           = Returned (int mv, [AI, HUMAN, AI, HUMAN, HUMAN, EMPTY, EMPTY, AI, EMPTY])
       \<and> mv \<in> {5, 6, 8}"
proof -
  let ?b = "[AI, HUMAN, AI, HUMAN, HUMAN, EMPTY, EMPTY, AI, EMPTY]"
  have wf: "wf_board ?b" and ne: "available_moves ?b \<noteq> []"
    and len: "length (available_moves ?b) \<le> Suc 2" and moves: "available_moves ?b = [5, 6, 8]"
    by (simp_all add: board_eval)
  from ai_move_legal [OF wf ne len, of "''easy''" "7 / 8" 1] moves
  show ?thesis by auto
qed

section \<open>Bounds on the reference score by search\<close>

text \<open>
  A checker for one-sided bounds on the reference score: \<open>bound_ok True\<close> establishes
  that the score of a position is at least \<open>0\<close> (\<open>AI\<close> can hold the draw), \<open>bound_ok False\<close>
  that it is at most \<open>0\<close> (\<open>HUMAN\<close> can hold the draw). The side that holds needs one
  move that keeps the bound, the other side is given all its moves. The first argument
  of the recursion is a depth budget.
\<close>

definition verdict :: "bool \<Rightarrow> board \<Rightarrow> bool option" where
  "verdict ge b =
     (case winner b of
        Inl e \<Rightarrow> Some False
      | Inr (Some w) \<Rightarrow> Some (if w = AI then ge else if w = HUMAN then \<not> ge else False)
      | Inr None \<Rightarrow> if available_moves b = [] then Some True else None)"

function bound_ok :: "bool \<Rightarrow> nat \<Rightarrow> board \<Rightarrow> string \<Rightarrow> bool"
  and some_move_ok :: "bool \<Rightarrow> nat \<Rightarrow> nat list \<Rightarrow> board \<Rightarrow> string \<Rightarrow> string \<Rightarrow> bool"
  and all_moves_ok :: "bool \<Rightarrow> nat \<Rightarrow> nat list \<Rightarrow> board \<Rightarrow> string \<Rightarrow> string \<Rightarrow> bool"
where
  "bound_ok ge 0 b turn = (case verdict ge b of Some v \<Rightarrow> v | None \<Rightarrow> False)"
| "bound_ok ge (Suc k) b turn =
     (case verdict ge b of
        Some v \<Rightarrow> v
      | None \<Rightarrow>
          if turn = AI then
            (if ge then some_move_ok ge k (available_moves b) b AI HUMAN
             else all_moves_ok ge k (available_moves b) b AI HUMAN)
          else
            (if ge then all_moves_ok ge k (available_moves b) b HUMAN AI
             else some_move_ok ge k (available_moves b) b HUMAN AI))"
| "some_move_ok ge k [] b mark next_turn = False"
| "some_move_ok ge k (m # ms) b mark next_turn =
     (if bound_ok ge k (b[m := mark]) next_turn then True
      else some_move_ok ge k ms b mark next_turn)"
| "all_moves_ok ge k [] b mark next_turn = True"
| "all_moves_ok ge k (m # ms) b mark next_turn =
     (if bound_ok ge k (b[m := mark]) next_turn then all_moves_ok ge k ms b mark next_turn
      else False)"
  by pat_completeness auto

termination
  by (relation "inv_image (less_than <*lex*> less_than)
        (\<lambda>x. case x of
           Inl (ge, k, b, turn) \<Rightarrow> (k, 0)
         | Inr (Inl (ge, k, ms, b, mark, next_turn)) \<Rightarrow> (k, Suc (length ms))
         | Inr (Inr (ge, k, ms, b, mark, next_turn)) \<Rightarrow> (k, Suc (length ms)))") auto


subsection \<open>Evaluation on a board written out\<close>

lemma winner_scan_step:
  "a < length b \<Longrightarrow> c < length b \<Longrightarrow> d < length b \<Longrightarrow>
     winner_scan b ((a, c, d) # ls) =
       (if b ! a \<noteq> EMPTY \<and> b ! a = b ! c \<and> b ! c = b ! d then Inr (Some (b ! a))
        else winner_scan b ls)"
  by auto

lemma winner_cells:
  "winner [c0, c1, c2, c3, c4, c5, c6, c7, c8] =
     (if c0 \<noteq> EMPTY \<and> c0 = c1 \<and> c1 = c2 then Inr (Some c0) else
     (if c3 \<noteq> EMPTY \<and> c3 = c4 \<and> c4 = c5 then Inr (Some c3) else
     (if c6 \<noteq> EMPTY \<and> c6 = c7 \<and> c7 = c8 then Inr (Some c6) else
     (if c0 \<noteq> EMPTY \<and> c0 = c3 \<and> c3 = c6 then Inr (Some c0) else
     (if c1 \<noteq> EMPTY \<and> c1 = c4 \<and> c4 = c7 then Inr (Some c1) else
     (if c2 \<noteq> EMPTY \<and> c2 = c5 \<and> c5 = c8 then Inr (Some c2) else
     (if c0 \<noteq> EMPTY \<and> c0 = c4 \<and> c4 = c8 then Inr (Some c0) else
     (if c2 \<noteq> EMPTY \<and> c2 = c4 \<and> c4 = c6 then Inr (Some c2) else
      Inr None))))))))"
  by (simp add: winner_def WIN_LINES_def winner_scan_step del: winner_scan.simps(2) split del: if_split cong del: if_weak_cong)

fun free_from :: "nat \<Rightarrow> board \<Rightarrow> nat list" where
  "free_from i [] = []"
| "free_from i (x # xs) = (if x = EMPTY then i # free_from (Suc i) xs else free_from (Suc i) xs)"

lemma free_from_filter:
  "free_from i b = map (\<lambda>j. i + j) (filter (\<lambda>j. b ! j = EMPTY) [0..<length b])"
proof (induction b arbitrary: i)
  case Nil
  show ?case by simp
next
  case (Cons x xs)
  have "filter (\<lambda>j. (x # xs) ! j = EMPTY) [0..<length (x # xs)]
        = (if x = EMPTY then [0] else []) @ map Suc (filter (\<lambda>j. xs ! j = EMPTY) [0..<length xs])"
    by (simp add: upt_conv_Cons map_Suc_upt [symmetric] filter_map o_def del: upt_Suc)
  with Cons [of "Suc i"] show ?case by simp
qed

lemma available_moves_free: "available_moves b = free_from 0 b"
  by (simp add: available_moves_filter free_from_filter)

lemmas bound_eval =
  bound_ok.simps some_move_ok.simps all_moves_ok.simps verdict_def
  winner_cells available_moves_free free_from.simps list_update_code marks_distinct
  sum.case option.case list.distinct if_True if_False simp_thms

lemma some_move_ok_ex:
  "some_move_ok ge k ms b mark nt \<Longrightarrow> \<exists>m \<in> set ms. bound_ok ge k (b[m := mark]) nt"
  by (induction ms) (auto split: if_splits)

lemma all_moves_ok_all:
  "all_moves_ok ge k ms b mark nt \<Longrightarrow> \<forall>m \<in> set ms. bound_ok ge k (b[m := mark]) nt"
  by (induction ms) (auto split: if_splits)

lemma bound_ok_sound:
  "wf_board b \<Longrightarrow> bound_ok ge k b turn \<Longrightarrow>
     (if ge then 0 \<le> minimax_ref b turn else minimax_ref b turn \<le> 0)"
proof (induction k arbitrary: b turn)
  case 0
  from wf_winner_cases [OF "0.prems"(1)] "0.prems"(2) show ?case
    by (cases "available_moves b = []")
       (auto simp: verdict_def minimax_ref_won_AI minimax_ref_won_HUMAN minimax_ref_drawn)
next
  case (Suc k)
  note wf = Suc.prems(1)
  show ?case
  proof (cases "winner b = Inr None \<and> available_moves b \<noteq> []")
    case False
    with wf_winner_cases [OF wf] Suc.prems(2) show ?thesis
      by (auto simp: verdict_def minimax_ref_won_AI minimax_ref_won_HUMAN minimax_ref_drawn)
  next
    case True
    then have nowin: "winner b = Inr None" and moves: "available_moves b \<noteq> []" by simp_all
    then have none: "verdict ge b = None" by (simp add: verdict_def)
    have child: "(if ge then 0 \<le> minimax_ref (b[m := p]) t else minimax_ref (b[m := p]) t \<le> 0)"
      if "bound_ok ge k (b[m := p]) t" and "p = AI \<or> p = HUMAN" for m p t
    proof -
      have "wf_board (b[m := p])" using wf that(2) by (intro wf_board_update) auto
      then show ?thesis using that(1) by (rule Suc.IH)
    qed
    let ?ai = "\<lambda>m. minimax_ref (b[m := AI]) HUMAN"
    let ?hu = "\<lambda>m. minimax_ref (b[m := HUMAN]) AI"
    have fin: "finite (?ai ` set (available_moves b))" "?ai ` set (available_moves b) \<noteq> {}"
      "finite (?hu ` set (available_moves b))" "?hu ` set (available_moves b) \<noteq> {}"
      using moves by simp_all
    show ?thesis
    proof (cases "turn = AI")
      case True
      have val: "minimax_ref b turn = Max (?ai ` set (available_moves b))"
        using True minimax_ref_Max [OF wf nowin moves] by simp
      show ?thesis
      proof (cases ge)
        case True
        with \<open>turn = AI\<close> none Suc.prems(2)
        have "some_move_ok True k (available_moves b) b AI HUMAN" by simp
        then obtain m where m: "m \<in> set (available_moves b)"
          and "bound_ok True k (b[m := AI]) HUMAN" using some_move_ok_ex by blast
        with child [of m AI HUMAN] True have "0 \<le> ?ai m" by simp
        also have "?ai m \<le> Max (?ai ` set (available_moves b))" using m by simp
        finally show ?thesis using True val by simp
      next
        case False
        with \<open>turn = AI\<close> none Suc.prems(2)
        have "all_moves_ok False k (available_moves b) b AI HUMAN" by simp
        then have "\<forall>m \<in> set (available_moves b). bound_ok False k (b[m := AI]) HUMAN"
          by (rule all_moves_ok_all)
        with child [of _ AI HUMAN] False
        have "\<forall>m \<in> set (available_moves b). ?ai m \<le> 0" by auto
        then have "Max (?ai ` set (available_moves b)) \<le> 0"
          using fin by (simp add: Max_le_iff)
        with False val show ?thesis by simp
      qed
    next
      case False
      have val: "minimax_ref b turn = Min (?hu ` set (available_moves b))"
        using False minimax_ref_Min [OF wf nowin moves] by simp
      show ?thesis
      proof (cases ge)
        case True
        with \<open>turn \<noteq> AI\<close> none Suc.prems(2)
        have "all_moves_ok True k (available_moves b) b HUMAN AI" by simp
        then have "\<forall>m \<in> set (available_moves b). bound_ok True k (b[m := HUMAN]) AI"
          by (rule all_moves_ok_all)
        with child [of _ HUMAN AI] True
        have "\<forall>m \<in> set (available_moves b). 0 \<le> ?hu m" by auto
        then have "0 \<le> Min (?hu ` set (available_moves b))"
          using fin by (simp add: Min_ge_iff)
        with True val show ?thesis by simp
      next
        case ge: False
        with \<open>turn \<noteq> AI\<close> none Suc.prems(2)
        have "some_move_ok False k (available_moves b) b HUMAN AI" by simp
        then obtain m where m: "m \<in> set (available_moves b)"
          and "bound_ok False k (b[m := HUMAN]) AI" using some_move_ok_ex by blast
        with child [of m HUMAN AI] ge have le: "?hu m \<le> 0" by simp
        have "Min (?hu ` set (available_moves b)) \<le> ?hu m" using m by simp
        with le ge val show ?thesis by simp
      qed
    qed
  qed
qed

section \<open>The empty board\<close>

lemma empty_board_cells:
  "replicate 9 EMPTY = [EMPTY, EMPTY, EMPTY, EMPTY, EMPTY, EMPTY, EMPTY, EMPTY, EMPTY]"
  by (simp add: eval_nat_numeral)

lemma wf_empty_board: "wf_board (replicate 9 EMPTY)"
  by (simp add: wf_board_def)

lemma empty_board_open:
  "winner (replicate 9 EMPTY) = Inr None"
  "available_moves (replicate 9 EMPTY) = [0, 1, 2, 3, 4, 5, 6, 7, 8]"
  by (simp_all add: empty_board_cells winner_cells available_moves_def)

lemma empty_board_AI_ge:
  "bound_ok True (Suc (Suc (Suc (Suc (Suc (Suc (Suc (Suc (Suc 0)))))))))
     [EMPTY, EMPTY, EMPTY, EMPTY, EMPTY, EMPTY, EMPTY, EMPTY, EMPTY] AI"
  by (simp only: bound_eval cong: if_weak_cong option.case_cong_weak sum.case_cong_weak)

lemma empty_board_AI_le:
  "bound_ok False (Suc (Suc (Suc (Suc (Suc (Suc (Suc (Suc (Suc 0)))))))))
     [EMPTY, EMPTY, EMPTY, EMPTY, EMPTY, EMPTY, EMPTY, EMPTY, EMPTY] AI"
  by (simp only: bound_eval cong: if_weak_cong option.case_cong_weak sum.case_cong_weak)

lemma empty_board_HUMAN_ge:
  "bound_ok True (Suc (Suc (Suc (Suc (Suc (Suc (Suc (Suc (Suc 0)))))))))
     [EMPTY, EMPTY, EMPTY, EMPTY, EMPTY, EMPTY, EMPTY, EMPTY, EMPTY] HUMAN"
  by (simp only: bound_eval cong: if_weak_cong option.case_cong_weak sum.case_cong_weak)

lemma empty_board_HUMAN_le:
  "bound_ok False (Suc (Suc (Suc (Suc (Suc (Suc (Suc (Suc (Suc 0)))))))))
     [EMPTY, EMPTY, EMPTY, EMPTY, EMPTY, EMPTY, EMPTY, EMPTY, EMPTY] HUMAN"
  by (simp only: bound_eval cong: if_weak_cong option.case_cong_weak sum.case_cong_weak)

lemma corner_opening_ge:
  "bound_ok True (Suc (Suc (Suc (Suc (Suc (Suc (Suc (Suc 0))))))))
     [AI, EMPTY, EMPTY, EMPTY, EMPTY, EMPTY, EMPTY, EMPTY, EMPTY] HUMAN"
  by (simp only: bound_eval cong: if_weak_cong option.case_cong_weak sum.case_cong_weak)

lemma bound_from_cells:
  assumes "bound_ok ge k cells turn" and "b = cells" and "wf_board b"
  shows "if ge then 0 \<le> minimax_ref b turn else minimax_ref b turn \<le> 0"
  using assms bound_ok_sound [of b ge k turn] by simp

lemma empty_board_value:
  "minimax_ref (replicate 9 EMPTY) AI = 0" "minimax_ref (replicate 9 EMPTY) HUMAN = 0"
proof -
  have "0 \<le> minimax_ref (replicate 9 EMPTY) AI"
    using bound_from_cells [OF empty_board_AI_ge empty_board_cells wf_empty_board] by simp
  moreover have "minimax_ref (replicate 9 EMPTY) AI \<le> 0"
    using bound_from_cells [OF empty_board_AI_le empty_board_cells wf_empty_board] by simp
  ultimately show "minimax_ref (replicate 9 EMPTY) AI = 0" by simp
  have "0 \<le> minimax_ref (replicate 9 EMPTY) HUMAN"
    using bound_from_cells [OF empty_board_HUMAN_ge empty_board_cells wf_empty_board] by simp
  moreover have "minimax_ref (replicate 9 EMPTY) HUMAN \<le> 0"
    using bound_from_cells [OF empty_board_HUMAN_le empty_board_cells wf_empty_board] by simp
  ultimately show "minimax_ref (replicate 9 EMPTY) HUMAN = 0" by simp
qed

lemma empty_board_moves:
  "available_moves (replicate 9 EMPTY) \<noteq> []" "0 \<in> set (available_moves (replicate 9 EMPTY))"
  by (simp_all add: empty_board_open)

lemma corner_opening_value: "minimax_ref ((replicate 9 EMPTY)[0 := AI]) HUMAN = 0"
proof -
  let ?b0 = "replicate 9 EMPTY"
  let ?f = "\<lambda>m. minimax_ref (?b0[m := AI]) HUMAN"
  have cells: "?b0[0 := AI] = [AI, EMPTY, EMPTY, EMPTY, EMPTY, EMPTY, EMPTY, EMPTY, EMPTY]"
    by (simp add: empty_board_cells)
  have wf: "wf_board (?b0[0 := AI])"
    using wf_empty_board by (rule wf_board_update) simp
  have lower: "0 \<le> ?f 0"
    using bound_from_cells [OF corner_opening_ge cells wf] by simp
  have "?f 0 \<in> ?f ` set (available_moves ?b0)"
    using empty_board_moves(2) by (rule imageI)
  then have "?f 0 \<le> Max (?f ` set (available_moves ?b0))"
    by (intro Max_ge) simp_all
  also have "Max (?f ` set (available_moves ?b0)) = minimax_ref ?b0 AI"
    by (rule minimax_ref_Max [OF wf_empty_board empty_board_open(1) empty_board_moves(1), symmetric])
  also have "\<dots> = 0" by (rule empty_board_value(1))
  finally have "?f 0 \<le> 0" .
  with lower show ?thesis by simp
qed

section \<open>Claims about the perfect move\<close>

lemma best_ai_move_argmax:
  assumes wf: "wf_board b" and moves: "available_moves b \<noteq> []"
    and len: "length (available_moves b) \<le> Suc fuel"
    and nowin: "\<forall>m \<in> set (available_moves b). winner (b[m := AI]) \<noteq> Inr (Some AI)"
  obtains m where "m \<in> set (available_moves b)"
    and "best_ai_move fuel b = Returned (int m, b)"
    and "\<forall>m' \<in> set (available_moves b).
           minimax_ref (b[m' := AI]) HUMAN \<le> minimax_ref (b[m := AI]) HUMAN
           \<and> (m' < m \<longrightarrow> minimax_ref (b[m' := AI]) HUMAN < minimax_ref (b[m := AI]) HUMAN)"
proof -
  from moves obtain x where x: "x \<in> set (available_moves b)"
    by (cases "available_moves b") auto
  have "wf_board (b[x := AI])" using wf by (rule wf_board_update) simp
  from minimax_ref_range [OF this, of HUMAN]
  have "\<not> minimax_ref (b[x := AI]) HUMAN \<le> - 10" by auto
  with x have "\<not> (\<forall>m \<in> set (available_moves b). minimax_ref (b[m := AI]) HUMAN \<le> - 10)"
    by blast
  with pick_no_win [OF strict_sorted_available_moves nowin, of "- 10" "- 1"]
  obtain m where "m \<in> set (available_moves b)"
    and "pick b (available_moves b) (- 10) (- 1) = int m"
    and "\<forall>m' \<in> set (available_moves b).
           minimax_ref (b[m' := AI]) HUMAN \<le> minimax_ref (b[m := AI]) HUMAN
           \<and> (m' < m \<longrightarrow> minimax_ref (b[m' := AI]) HUMAN < minimax_ref (b[m := AI]) HUMAN)"
    by (elim disjE conjE bexE) simp_all
  with best_ai_move_pick [OF wf len] that show ?thesis by simp
qed

lemma empty_board_no_immediate_win:
  "\<forall>m \<in> set (available_moves (replicate 9 EMPTY)).
      winner ((replicate 9 EMPTY)[m := AI]) \<noteq> Inr (Some AI)"
  by (simp add: empty_board_open) (simp add: empty_board_cells winner_cells)

lemma empty_board_best_move:
  assumes "8 \<le> fuel"
  shows "best_ai_move fuel (replicate 9 EMPTY) = Returned (0, replicate 9 EMPTY)"
proof -
  let ?b0 = "replicate 9 EMPTY"
  let ?f = "\<lambda>m. minimax_ref (?b0[m := AI]) HUMAN"
  from assms have len: "length (available_moves ?b0) \<le> Suc fuel"
    by (simp add: empty_board_open)
  obtain m where m: "m \<in> set (available_moves ?b0)"
    and run: "best_ai_move fuel ?b0 = Returned (int m, ?b0)"
    and best: "\<forall>m' \<in> set (available_moves ?b0). ?f m' \<le> ?f m \<and> (m' < m \<longrightarrow> ?f m' < ?f m)"
    using best_ai_move_argmax [OF wf_empty_board empty_board_moves(1) len
        empty_board_no_immediate_win] by blast
  have "?f m \<in> ?f ` set (available_moves ?b0)" using m by (rule imageI)
  then have "?f m \<le> Max (?f ` set (available_moves ?b0))" by (intro Max_ge) simp_all
  also have "Max (?f ` set (available_moves ?b0)) = minimax_ref ?b0 AI"
    by (rule minimax_ref_Max [OF wf_empty_board empty_board_open(1) empty_board_moves(1), symmetric])
  finally have "?f m \<le> 0" by (simp add: empty_board_value)
  moreover from best empty_board_moves(2) have "0 < m \<longrightarrow> ?f 0 < ?f m" by blast
  ultimately have "m = 0" using corner_opening_value by auto
  with run show ?thesis by simp
qed

text \<open>
  C5 (tie-break determinism). On every nine-cell board of marks with a free cell on which
  no move wins at once (no free cell makes \<open>winner\<close> report \<open>AI\<close>), \<open>best_ai_move\<close> returns
  a free cell whose score is the greatest among the free cells and strictly greater than
  the score of every free cell of lower index: the lowest-index move that reaches the
  maximum. The score of a cell is the reference score of the board with \<open>AI\<close> placed
  there and \<open>HUMAN\<close> to move, which is what the search returns for that board from an
  empty memo table. On the empty board \<open>best_ai_move\<close> returns cell 0.
\<close>

theorem tie_break_lowest_index:
  assumes "wf_board b" and "available_moves b \<noteq> []"
    and "length (available_moves b) \<le> Suc fuel"
    and "\<forall>m \<in> set (available_moves b). winner (b[m := AI]) \<noteq> Inr (Some AI)"
  shows "(\<exists>m \<in> set (available_moves b).
            best_ai_move fuel b = Returned (int m, b)
            \<and> (\<forall>m' \<in> set (available_moves b).
                  (\<exists>memo'. minimax fuel (b[m' := AI]) HUMAN Map.empty
                      = Returned (minimax_ref (b[m' := AI]) HUMAN, b[m' := AI], memo'))
                  \<and> minimax_ref (b[m' := AI]) HUMAN \<le> minimax_ref (b[m := AI]) HUMAN
                  \<and> (m' < m \<longrightarrow>
                       minimax_ref (b[m' := AI]) HUMAN < minimax_ref (b[m := AI]) HUMAN)))
       \<and> (8 \<le> fuel0 \<longrightarrow>
            best_ai_move fuel0 (replicate 9 EMPTY) = Returned (0, replicate 9 EMPTY))"
proof (intro conjI impI)
  obtain m where m: "m \<in> set (available_moves b)"
    and run: "best_ai_move fuel b = Returned (int m, b)"
    and best: "\<forall>m' \<in> set (available_moves b).
           minimax_ref (b[m' := AI]) HUMAN \<le> minimax_ref (b[m := AI]) HUMAN
           \<and> (m' < m \<longrightarrow> minimax_ref (b[m' := AI]) HUMAN < minimax_ref (b[m := AI]) HUMAN)"
    using best_ai_move_argmax [OF assms] by blast
  have score: "\<exists>memo'. minimax fuel (b[m' := AI]) HUMAN Map.empty
                      = Returned (minimax_ref (b[m' := AI]) HUMAN, b[m' := AI], memo')"
    if "m' \<in> set (available_moves b)" for m'
  proof -
    have wf1: "wf_board (b[m' := AI])" using assms(1) by (rule wf_board_update) simp
    have "Suc (length (available_moves (b[m' := AI]))) = length (available_moves b)"
      using that by (rule available_moves_update) simp
    with assms(3) have "length (available_moves (b[m' := AI])) \<le> fuel" by simp
    from minimax_returns [OF wf1 this, of HUMAN Map.empty] memo_ok_empty
    show ?thesis by metis
  qed
  from m run best score
  show "\<exists>m \<in> set (available_moves b).
            best_ai_move fuel b = Returned (int m, b)
            \<and> (\<forall>m' \<in> set (available_moves b).
                  (\<exists>memo'. minimax fuel (b[m' := AI]) HUMAN Map.empty
                      = Returned (minimax_ref (b[m' := AI]) HUMAN, b[m' := AI], memo'))
                  \<and> minimax_ref (b[m' := AI]) HUMAN \<le> minimax_ref (b[m := AI]) HUMAN
                  \<and> (m' < m \<longrightarrow>
                       minimax_ref (b[m' := AI]) HUMAN < minimax_ref (b[m := AI]) HUMAN))"
    by blast
next
  assume "8 \<le> fuel0"
  then show "best_ai_move fuel0 (replicate 9 EMPTY) = Returned (0, replicate 9 EMPTY)"
    by (rule empty_board_best_move)
qed

theorem tie_break_lowest_index_witness:
  "best_ai_move 3 [HUMAN, AI, HUMAN, EMPTY, AI, EMPTY, EMPTY, HUMAN, EMPTY]
      = Returned (3, [HUMAN, AI, HUMAN, EMPTY, AI, EMPTY, EMPTY, HUMAN, EMPTY])
   \<and> minimax_ref ([HUMAN, AI, HUMAN, EMPTY, AI, EMPTY, EMPTY, HUMAN, EMPTY][5 := AI]) HUMAN
        \<le> minimax_ref ([HUMAN, AI, HUMAN, EMPTY, AI, EMPTY, EMPTY, HUMAN, EMPTY][3 := AI]) HUMAN
   \<and> best_ai_move 8 (replicate 9 EMPTY) = Returned (0, replicate 9 EMPTY)"
proof -
  let ?b = "[HUMAN, AI, HUMAN, EMPTY, AI, EMPTY, EMPTY, HUMAN, EMPTY]"
  have wf: "wf_board ?b" and ne: "available_moves ?b \<noteq> []"
    and len: "length (available_moves ?b) \<le> Suc 3"
    and moves: "available_moves ?b = [3, 5, 6, 8]"
    by (simp_all add: board_eval)
  have nowin: "\<forall>m \<in> set (available_moves ?b). winner (?b[m := AI]) \<noteq> Inr (Some AI)"
    by (simp add: moves) (simp add: winner_cells)
  have run: "best_ai_move 3 ?b = Returned (3, ?b)"
    by (simp add: board_eval minimax.simps)
  from tie_break_lowest_index [OF wf ne len nowin, of 8] run moves
  show ?thesis by auto
qed

end
